theory Spec2Isabelle
  imports Complex_Main
begin

section \<open>Python and NumPy primitives used by the source\<close>

text \<open>
  The development follows \<^verbatim>\<open>openmodes/operator/singularities.py\<close>. Exceptions are values
  of \<open>error\<close>; a fallible computation returns \<open>error + 'a\<close> with \<open>Inl\<close> the exception.
  A \<^verbatim>\<open>ValueError\<close> raised by the module or by a Python builtin carries its message, which
  tells the basis check of \<^verbatim>\<open>singular_impedance_rwg\<close> apart from the \<^verbatim>\<open>ValueError\<close> of
  \<^verbatim>\<open>max\<close> on an empty sequence. An exception that NumPy raises while it converts an
  assigned value is kept apart by its origin: \<open>NumPyError\<close> of its kind.
  \<open>ConvergenceFailure\<close> is the per-mode failure of the Pole Refiner.
\<close>

datatype np_error = NpOverflowError | NpValueError | NpTypeError

datatype error =
    ValueError string
  | KeyError
  | IndexError
  | QuadratureFailure
  | NumPyError np_error
  | ConvergenceFailure

text \<open>
  \<^verbatim>\<open>for x in xs: body\<close> with an exception leaving the loop at once. The type of the
  exception is a parameter: a loop over mutable global state keeps the state reached
  when the exception was raised inside it.
\<close>

fun for_loop :: "'x list \<Rightarrow> ('x \<Rightarrow> 's \<Rightarrow> 'e + 's) \<Rightarrow> 's \<Rightarrow> 'e + 's" where
  "for_loop [] body s = Inr s"
| "for_loop (x # xs) body s =
     (case body x s of Inl e \<Rightarrow> Inl e | Inr s' \<Rightarrow> for_loop xs body s')"

text \<open>\<^verbatim>\<open>range(n)\<close> for a Python int \<open>n\<close>: empty when \<open>n \<le> 0\<close>.\<close>

definition py_range :: "int \<Rightarrow> int list" where
  "py_range n = map int [0..<nat n]"

text \<open>\<^verbatim>\<open>max(xs)\<close>: raises \<^verbatim>\<open>ValueError\<close> on an empty sequence.\<close>

fun py_max :: "int list \<Rightarrow> error + int" where
  "py_max [] = Inl (ValueError ''max() arg is an empty sequence'')"
| "py_max (x # xs) = Inr (fold max xs x)"

text \<open>
  A Python \<^verbatim>\<open>dict\<close> is an association list with unique keys in insertion order.
  \<open>dict_set\<close> is \<^verbatim>\<open>d[k] = v\<close>: an existing key keeps its position and takes the new
  value, a new key goes to the end. Lookup is \<open>map_of\<close>.
\<close>

fun dict_set :: "'k \<Rightarrow> 'v \<Rightarrow> ('k \<times> 'v) list \<Rightarrow> ('k \<times> 'v) list" where
  "dict_set k v [] = [(k, v)]"
| "dict_set k v ((k', v') # d) = (if k' = k then (k, v) # d else (k', v') # dict_set k v d)"

text \<open>
  A NumPy array is its creation parameters and its cells along the first axis. A cell of
  an array made by \<^verbatim>\<open>np.empty\<close> is \<open>Uninit\<close> until it is assigned; a cell of an integer
  array holds an integer, a cell of a data array one stored element (itself an array of
  the per-element shape, kept abstract as \<open>'a\<close>).
\<close>

datatype dtype = float64 | int32

datatype mem_order = C_order | F_order

datatype 'a cell = Uninit | Index (the_index: int) | Sub (the_sub: 'a)

record 'a ndarray =
  dtype :: dtype
  shape :: "nat list"
  order :: mem_order
  cells :: "'a cell list"

text \<open>
  What NumPy does with a value that is assigned into an array is NumPy's, not this
  module's, and is taken as given. \<open>np_store dt sh v\<close> is the element that
  \<^verbatim>\<open>a[i] = v\<close> leaves in an array of dtype \<open>dt\<close> and per-element shape \<open>sh\<close>: NumPy casts
  \<open>v\<close> to the dtype (in \<^verbatim>\<open>float64\<close> the integer \<open>2^53 + 1\<close> becomes \<open>2^53\<close>), broadcasts it
  to the shape, or raises (a sequence for a scalar slot, a shape that does not
  broadcast). \<open>np_store_int dt c\<close> is the integer left in an integer array by assigning
  the Python integer \<open>c\<close>, or by \<^verbatim>\<open>np.array\<close> on a list that holds \<open>c\<close>: \<open>c\<close> itself when
  it fits the dtype; outside the range NumPy raises \<^verbatim>\<open>OverflowError\<close> or wraps around,
  depending on its version and on the type of \<open>c\<close>.
\<close>

record 'a numpy =
  np_store :: "dtype \<Rightarrow> nat list \<Rightarrow> 'a \<Rightarrow> np_error + 'a"
  np_store_int :: "dtype \<Rightarrow> int \<Rightarrow> np_error + int"

text \<open>
  The range of \<^verbatim>\<open>int32\<close>, and the one thing the theorems ask of NumPy where they need the
  stored integers: an integer in that range is stored unchanged.
\<close>

definition int32_range :: "int \<Rightarrow> bool" where
  "int32_range c = (- (2 ^ 31) \<le> c \<and> c < 2 ^ 31)"

definition int32_exact :: "'a numpy \<Rightarrow> bool" where
  "int32_exact N = (\<forall>c. int32_range c \<longrightarrow> np_store_int N int32 c = Inr c)"

definition np_empty :: "nat \<Rightarrow> nat list \<Rightarrow> dtype \<Rightarrow> mem_order \<Rightarrow> 'a ndarray" where
  "np_empty n sh dt ord = \<lparr>dtype = dt, shape = n # sh, order = ord, cells = replicate n Uninit\<rparr>"

text \<open>\<^verbatim>\<open>np.array(xs, dtype=dt, order=ord)\<close> on a list of Python integers.\<close>

fun np_store_ints :: "'a numpy \<Rightarrow> dtype \<Rightarrow> int list \<Rightarrow> error + int list" where
  "np_store_ints N dt [] = Inr []"
| "np_store_ints N dt (x # xs) =
     (case np_store_int N dt x of
        Inl e \<Rightarrow> Inl (NumPyError e)
      | Inr c \<Rightarrow> (case np_store_ints N dt xs of Inl e \<Rightarrow> Inl e | Inr cs \<Rightarrow> Inr (c # cs)))"

definition np_array :: "'a numpy \<Rightarrow> int list \<Rightarrow> dtype \<Rightarrow> mem_order \<Rightarrow> error + 'a ndarray" where
  "np_array N xs dt ord =
     (case np_store_ints N dt xs of
        Inl e \<Rightarrow> Inl e
      | Inr cs \<Rightarrow> Inr \<lparr>dtype = dt, shape = [length xs], order = ord, cells = map Index cs\<rparr>)"

text \<open>
  \<^verbatim>\<open>a[i] = v\<close> for \<open>0 \<le> i\<close> on a data array and \<^verbatim>\<open>a[i] = c\<close> on an integer array:
  \<^verbatim>\<open>IndexError\<close> beyond the first axis, otherwise the cell takes what NumPy makes of the
  value for the dtype and the per-element shape of the array, or NumPy raises.
\<close>

definition np_setitem :: "'a numpy \<Rightarrow> 'a ndarray \<Rightarrow> nat \<Rightarrow> 'a \<Rightarrow> error + 'a ndarray" where
  "np_setitem N a i v =
     (if i < length (cells a) then
        (case np_store N (dtype a) (tl (shape a)) v of
           Inl e \<Rightarrow> Inl (NumPyError e)
         | Inr v' \<Rightarrow> Inr (a\<lparr>cells := (cells a)[i := Sub v']\<rparr>))
      else Inl IndexError)"

definition np_setitem_int :: "'a numpy \<Rightarrow> 'a ndarray \<Rightarrow> nat \<Rightarrow> int \<Rightarrow> error + 'a ndarray" where
  "np_setitem_int N a i c =
     (if i < length (cells a) then
        (case np_store_int N (dtype a) c of
           Inl e \<Rightarrow> Inl (NumPyError e)
         | Inr c' \<Rightarrow> Inr (a\<lparr>cells := (cells a)[i := Index c']\<rparr>))
      else Inl IndexError)"

section \<open>MultiSparse\<close>

text \<open>
  \<^verbatim>\<open>self.rows\<close> is a dict of dicts: row key to (column key to item). An item is a tuple
  of sub-items, one for each entry of \<^verbatim>\<open>self.subarrays\<close>; a subarray is a dtype and a
  per-element shape, \<open>None\<close> for a scalar.
\<close>

record 'a MultiSparse =
  rows :: "(int \<times> (int \<times> 'a list) list) list"
  subarrays :: "(dtype \<times> nat list option) list"

definition MultiSparse_init :: "(dtype \<times> nat list option) list \<Rightarrow> 'a MultiSparse" where
  "MultiSparse_init subs = \<lparr>rows = [], subarrays = subs\<rparr>"

text \<open>
  \<^verbatim>\<open>__setitem__\<close>: \<^verbatim>\<open>self.rows[row][col] = item\<close>, and when \<^verbatim>\<open>self.rows[row]\<close> raises
  \<^verbatim>\<open>KeyError\<close>, \<^verbatim>\<open>self.rows[row] = {col: item}\<close>.
\<close>

definition setitem :: "int \<times> int \<Rightarrow> 'a list \<Rightarrow> 'a MultiSparse \<Rightarrow> 'a MultiSparse" where
  "setitem index item M =
     (case index of (row, col) \<Rightarrow>
        (case map_of (rows M) row of
           Some row_dict \<Rightarrow> M\<lparr>rows := dict_set row (dict_set col item row_dict) (rows M)\<rparr>
         | None \<Rightarrow> M\<lparr>rows := dict_set row [(col, item)] (rows M)\<rparr>))"

text \<open>\<^verbatim>\<open>__getitem__\<close>: \<^verbatim>\<open>self.rows[index[0]][index[1]]\<close>, \<^verbatim>\<open>KeyError\<close> on a missing key.\<close>

definition getitem :: "'a MultiSparse \<Rightarrow> int \<times> int \<Rightarrow> error + 'a list" where
  "getitem M index =
     (case map_of (rows M) (fst index) of
        None \<Rightarrow> Inl KeyError
      | Some row_dict \<Rightarrow>
          (case map_of row_dict (snd index) of None \<Rightarrow> Inl KeyError | Some item \<Rightarrow> Inr item))"

text \<open>\<^verbatim>\<open>__len__\<close>: the sum of the lengths of the row dicts.\<close>

definition len :: "'a MultiSparse \<Rightarrow> nat" where
  "len M = sum_list (map (\<lambda>(row, row_dict). length row_dict) (rows M))"

text \<open>\<^verbatim>\<open>items\<close>: all \<open>((row, col), item)\<close> in dict order.\<close>

definition items :: "'a MultiSparse \<Rightarrow> ((int \<times> int) \<times> 'a list) list" where
  "items M =
     concat (map (\<lambda>(row, row_dict). map (\<lambda>(col, item). ((row, col), item)) row_dict) (rows M))"

text \<open>A store as a program builds it: \<^verbatim>\<open>__init__\<close>, then a sequence of \<^verbatim>\<open>__setitem__\<close>.\<close>

definition build :: "(dtype \<times> nat list option) list \<Rightarrow> ((int \<times> int) \<times> 'a list) list \<Rightarrow> 'a MultiSparse" where
  "build subs ops = fold (\<lambda>(index, item). setitem index item) ops (MultiSparse_init subs)"

subsection \<open>to_csr\<close>

text \<open>The local variables of \<^verbatim>\<open>to_csr\<close> that its loops assign.\<close>

record 'a csr_locals =
  data_arrays :: "'a ndarray list"
  indices :: "'a ndarray"
  data_index :: nat
  indptr :: "int list"

text \<open>
  \<^verbatim>\<open>data_arrays[sub_count][data_index] = sub_item\<close>; \<^verbatim>\<open>data_arrays\<close> is a Python list,
  so a \<^verbatim>\<open>sub_count\<close> beyond it raises \<^verbatim>\<open>IndexError\<close>, and the assignment into the array is
  NumPy's.
\<close>

definition store_sub ::
  "'a numpy \<Rightarrow> nat \<Rightarrow> nat \<times> 'a \<Rightarrow> 'a ndarray list \<Rightarrow> error + 'a ndarray list" where
  "store_sub N k = (\<lambda>(sub_count, sub_item) arrays.
     if sub_count < length arrays then
       (case np_setitem N (arrays ! sub_count) k sub_item of
          Inl e \<Rightarrow> Inl e
        | Inr a \<Rightarrow> Inr (arrays[sub_count := a]))
     else Inl IndexError)"

text \<open>
  The body of \<^verbatim>\<open>for col, item in self.rows[row].items()\<close>: the sub-items, then
  \<^verbatim>\<open>indices[data_index] = col\<close> into the \<^verbatim>\<open>int32\<close> array, then \<^verbatim>\<open>data_index += 1\<close>.
\<close>

definition store_item :: "'a numpy \<Rightarrow> int \<times> 'a list \<Rightarrow> 'a csr_locals \<Rightarrow> error + 'a csr_locals" where
  "store_item N = (\<lambda>(col, item) st.
     case for_loop (enumerate 0 item) (store_sub N (data_index st)) (data_arrays st) of
       Inl e \<Rightarrow> Inl e
     | Inr arrays \<Rightarrow>
         (case np_setitem_int N (indices st) (data_index st) col of
            Inl e \<Rightarrow> Inl e
          | Inr ind \<Rightarrow>
              Inr (st\<lparr>data_arrays := arrays, indices := ind, data_index := data_index st + 1\<rparr>)))"

text \<open>The body of \<^verbatim>\<open>for row in range(num_rows)\<close>.\<close>

definition store_row ::
  "'a numpy \<Rightarrow> (int \<times> (int \<times> 'a list) list) list \<Rightarrow> int \<Rightarrow> 'a csr_locals
     \<Rightarrow> error + 'a csr_locals" where
  "store_row N rws row st =
     (case (case map_of rws row of
              Some row_dict \<Rightarrow> for_loop row_dict (store_item N) st
            | None \<Rightarrow> Inr st) of
        Inl e \<Rightarrow> Inl e
      | Inr st' \<Rightarrow> Inr (st'\<lparr>indptr := indptr st' @ [int (data_index st')]\<rparr>))"

definition to_csr :: "'a numpy \<Rightarrow> mem_order \<Rightarrow> 'a MultiSparse \<Rightarrow> error + 'a ndarray list" where
  "to_csr N ord M =
     (let num_objs = len M;
          indices0 = np_empty num_objs [] int32 ord;
          data_arrays0 = map (\<lambda>(dt, shape).
              case shape of None \<Rightarrow> np_empty num_objs [] dt ord
                          | Some sh \<Rightarrow> np_empty num_objs sh dt ord) (subarrays M)
      in case py_max (map fst (rows M)) of
           Inl e \<Rightarrow> Inl e
         | Inr m \<Rightarrow>
             (let num_rows = m + 1
              in case for_loop (py_range num_rows) (store_row N (rows M))
                        \<lparr>data_arrays = data_arrays0, indices = indices0,
                         data_index = 0, indptr = [0]\<rparr> of
                   Inl e \<Rightarrow> Inl e
                 | Inr st \<Rightarrow>
                     (case np_array N (indptr st) int32 ord of
                        Inl e \<Rightarrow> Inl e
                      | Inr ptr \<Rightarrow> Inr (data_arrays st @ [indices st, ptr]))))"

subsection \<open>What to_csr writes\<close>

text \<open>
  The entries that the loops of \<^verbatim>\<open>to_csr\<close> visit, in the order they visit them, what NumPy
  makes of an entry (\<open>storable\<close>: the tuple is no longer than \<^verbatim>\<open>subarrays\<close> and NumPy accepts
  every sub-item and the column; \<open>stored_entry\<close>: what it leaves in the arrays;
  \<open>stored_unchanged\<close>: the tuple has one sub-item for each subarray and NumPy leaves the
  sub-items and the column as they are), and the arrays after the stored entries \<open>E\<close> have
  been written. These describe the result; the
  lemmas below prove that \<open>to_csr\<close> computes them.
\<close>

definition row_entries :: "('k \<times> 'v list) list \<Rightarrow> 'k \<Rightarrow> 'v list" where
  "row_entries rws r = (case map_of rws r of Some row_dict \<Rightarrow> row_dict | None \<Rightarrow> [])"

definition emitted :: "('k \<times> 'v list) list \<Rightarrow> 'k list \<Rightarrow> 'v list" where
  "emitted rws R = concat (map (row_entries rws) R)"

definition sub_cell :: "'a list \<Rightarrow> nat \<Rightarrow> 'a cell" where
  "sub_cell item j = (if j < length item then Sub (item ! j) else Uninit)"

fun offsets :: "nat \<Rightarrow> nat list \<Rightarrow> int list" where
  "offsets k [] = []"
| "offsets k (l # ls) = int (k + l) # offsets (k + l) ls"

definition elem_shape :: "dtype \<times> nat list option \<Rightarrow> nat list" where
  "elem_shape sub = (case snd sub of None \<Rightarrow> [] | Some sh \<Rightarrow> sh)"

definition storable :: "'a numpy \<Rightarrow> (dtype \<times> nat list option) list \<Rightarrow> int \<times> 'a list \<Rightarrow> bool" where
  "storable N subs e =
     (length (snd e) \<le> length subs
      \<and> (\<forall>j\<in>set [0..<length (snd e)].
            \<not> isl (np_store N (fst (subs ! j)) (elem_shape (subs ! j)) (snd e ! j)))
      \<and> \<not> isl (np_store_int N int32 (fst e)))"

definition stored_entry ::
  "'a numpy \<Rightarrow> (dtype \<times> nat list option) list \<Rightarrow> int \<times> 'a list \<Rightarrow> int \<times> 'a list" where
  "stored_entry N subs e =
     (projr (np_store_int N int32 (fst e)),
      map (\<lambda>j. projr (np_store N (fst (subs ! j)) (elem_shape (subs ! j)) (snd e ! j)))
        [0..<length (snd e)])"

definition stored_unchanged ::
  "'a numpy \<Rightarrow> (dtype \<times> nat list option) list \<Rightarrow> int \<times> 'a list \<Rightarrow> bool" where
  "stored_unchanged N subs e =
     (length (snd e) = length subs
      \<and> (\<forall>j\<in>set [0..<length subs].
            np_store N (fst (subs ! j)) (elem_shape (subs ! j)) (snd e ! j) = Inr (snd e ! j))
      \<and> np_store_int N int32 (fst e) = Inr (fst e))"

definition data_array_of ::
  "nat \<Rightarrow> mem_order \<Rightarrow> (int \<times> 'a list) list \<Rightarrow> nat \<Rightarrow> dtype \<times> nat list option \<Rightarrow> 'a ndarray" where
  "data_array_of n ord E j sub =
     \<lparr>dtype = fst sub, shape = n # elem_shape sub, order = ord,
      cells = map (\<lambda>e. sub_cell (snd e) j) E @ replicate (n - length E) Uninit\<rparr>"

definition index_array_of :: "nat \<Rightarrow> mem_order \<Rightarrow> (int \<times> 'a list) list \<Rightarrow> 'a ndarray" where
  "index_array_of n ord E =
     \<lparr>dtype = int32, shape = [n], order = ord,
      cells = map (\<lambda>e. Index (fst e)) E @ replicate (n - length E) Uninit\<rparr>"

definition csr_after ::
  "nat \<Rightarrow> mem_order \<Rightarrow> (dtype \<times> nat list option) list \<Rightarrow> (int \<times> 'a list) list \<Rightarrow> int list
     \<Rightarrow> 'a csr_locals" where
  "csr_after n ord subs E ptr =
     \<lparr>data_arrays = map (\<lambda>j. data_array_of n ord E j (subs ! j)) [0..<length subs],
      indices = index_array_of n ord E, data_index = length E, indptr = ptr\<rparr>"

definition row_range :: "(int \<times> 'v) list \<Rightarrow> int list" where
  "row_range rws = py_range (Max (set (map fst rws)) + 1)"

definition csr_entries :: "'a MultiSparse \<Rightarrow> (int \<times> 'a list) list" where
  "csr_entries M = emitted (rows M) (row_range (rows M))"

definition csr_indptr :: "'a MultiSparse \<Rightarrow> int list" where
  "csr_indptr M = 0 # offsets 0 (map (\<lambda>r. length (row_entries (rows M) r)) (row_range (rows M)))"

text \<open>
  When \<^verbatim>\<open>to_csr\<close> returns: the store is not empty, every entry it visits can be stored, and
  NumPy accepts every row pointer for the \<^verbatim>\<open>int32\<close> pointer array.
\<close>

definition csr_ok :: "'a numpy \<Rightarrow> 'a MultiSparse \<Rightarrow> bool" where
  "csr_ok N M =
     (rows M \<noteq> []
      \<and> (\<forall>e\<in>set (csr_entries M). storable N (subarrays M) e)
      \<and> (\<forall>p\<in>set (csr_indptr M). \<not> isl (np_store_int N int32 p)))"

text \<open>
  The result of \<^verbatim>\<open>to_csr\<close> on a store whose entries NumPy accepts: the data arrays, the
  index array and the row-pointer array, holding what NumPy stored.
\<close>

definition csr_result :: "'a numpy \<Rightarrow> mem_order \<Rightarrow> 'a MultiSparse \<Rightarrow> 'a ndarray list" where
  "csr_result N ord M =
     (let E = map (stored_entry N (subarrays M)) (csr_entries M)
      in map (\<lambda>j. data_array_of (len M) ord E j (subarrays M ! j)) [0..<length (subarrays M)]
         @ [index_array_of (len M) ord E,
            \<lparr>dtype = int32, shape = [length (csr_indptr M)], order = ord,
             cells = map (\<lambda>p. Index (projr (np_store_int N int32 p))) (csr_indptr M)\<rparr>])"

text \<open>The Python slice \<^verbatim>\<open>xs[lo:hi]\<close> for \<open>0 \<le> lo\<close> and \<open>0 \<le> hi\<close>.\<close>

definition py_slice :: "'a list \<Rightarrow> nat \<Rightarrow> nat \<Rightarrow> 'a list" where
  "py_slice xs lo hi = take (hi - lo) (drop lo xs)"

text \<open>
  Reading a compressed-row result back: the result is the data arrays followed by the
  index array and the row-pointer array; row \<open>r\<close> owns the positions from \<open>indptr[r]\<close> up
  to \<open>indptr[r + 1]\<close>, and position \<open>k\<close> holds the entry with column \<open>indices[k]\<close> and the
  value tuple made of cell \<open>k\<close> of every data array.
\<close>

definition from_csr :: "'a ndarray list \<Rightarrow> ((int \<times> int) \<times> 'a list) list" where
  "from_csr out =
     (let n = length out;
          ptr = map the_index (cells (out ! (n - 1)));
          ind = map the_index (cells (out ! (n - 2)));
          dat = map (\<lambda>a. map the_sub (cells a)) (take (n - 2) out)
      in concat (map (\<lambda>r. map (\<lambda>k. ((int r, ind ! k), map (\<lambda>d. d ! k) dat))
                              [nat (ptr ! r)..<nat (ptr ! Suc r)])
                     [0..<length ptr - 1]))"

section \<open>singular_impedance_rwg\<close>

text \<open>
  NumPy indexing \<^verbatim>\<open>xs[i]\<close> along the first axis: a negative index counts from the end,
  an index outside \<open>-n \<le> i < n\<close> raises \<^verbatim>\<open>IndexError\<close>. \<open>np_take\<close> is indexing with
  an array of indices, \<^verbatim>\<open>xs[idx]\<close>.
\<close>

definition np_getitem :: "'x list \<Rightarrow> int \<Rightarrow> error + 'x" where
  "np_getitem xs i =
     (let n = int (length xs)
      in if - n \<le> i \<and> i < n then Inr (xs ! nat (if i < 0 then i + n else i))
         else Inl IndexError)"

fun np_take :: "'x list \<Rightarrow> int list \<Rightarrow> error + 'x list" where
  "np_take xs [] = Inr []"
| "np_take xs (i # idx) =
     (case np_getitem xs i of
        Inl e \<Rightarrow> Inl e
      | Inr x \<Rightarrow> (case np_take xs idx of Inl e \<Rightarrow> Inl e | Inr ys \<Rightarrow> Inr (x # ys)))"

text \<open>
  The mesh and the basis come from the geometry adapter. \<^verbatim>\<open>polygons\<close> holds the node
  indices of each triangle, \<^verbatim>\<open>nodes\<close> the coordinates. \<open>triangles_sharing_nodes\<close> is the
  value of \<^verbatim>\<open>basis.mesh.triangles_sharing_nodes()\<close>, read at a node: the triangles listed
  for that node. \<open>is_LinearTriangleBasis\<close> is the outcome of
  \<^verbatim>\<open>isinstance(basis, LinearTriangleBasis)\<close> and \<open>basis_id\<close> is \<^verbatim>\<open>basis.id\<close>.
\<close>

record 'p mesh =
  polygons :: "int list list"
  nodes :: "'p list"
  triangles_sharing_nodes :: "int \<Rightarrow> int list"

record 'p basis =
  is_LinearTriangleBasis :: bool
  basis_id :: nat
  mesh :: "'p mesh"

text \<open>
  What the function calls outside this module. \<open>sha1_hexdigest\<close> is
  \<^verbatim>\<open>hashlib.sha1(normals).hexdigest()\<close>. \<open>face_integrals_yla_oijala\<close> is the quadrature
  kernel applied to the source nodes, the observer nodes and the observer normal, with
  the points and weights of \<^verbatim>\<open>DunavantRule(20)\<close> fixed; it returns the four sub-results
  \<^verbatim>\<open>res[0]\<close> to \<^verbatim>\<open>res[3]\<close>, or \<open>None\<close> when it raises. \<open>set_iter\<close> is the order in which
  Python iterates a set of triangle indices, which the language leaves open. \<open>numpy\<close> is
  what NumPy does with the values that \<^verbatim>\<open>to_csr\<close> assigns into its arrays.
\<close>

record ('p, 'n, 'a) collaborators =
  sha1_hexdigest :: "'n list \<Rightarrow> string"
  face_integrals_yla_oijala :: "'p list \<Rightarrow> 'p list \<Rightarrow> 'n \<Rightarrow> ('a \<times> 'a \<times> 'a \<times> 'a) option"
  set_iter :: "int set \<Rightarrow> int list"
  numpy :: "'a numpy"

definition set_iter_ok :: "('p, 'n, 'a) collaborators \<Rightarrow> bool" where
  "set_iter_ok X = (\<forall>S. finite S \<longrightarrow> set (set_iter X S) = S \<and> distinct (set_iter X S))"

text \<open>
  The cache key \<^verbatim>\<open>unique_id\<close>: the tag \<^verbatim>\<open>"RWG"\<close>, \<^verbatim>\<open>basis.id\<close>, \<^verbatim>\<open>rel_tol\<close>, the hash of
  the normals and \<^verbatim>\<open>num_terms\<close>.
\<close>

type_synonym cache_key = "string \<times> nat \<times> real \<times> string \<times> nat"

text \<open>
  What a call does besides returning, in the order it does it: the lookup of the key in
  the cache, the log line, each evaluation of the quadrature kernel for an (observer,
  source) pair, each \<^verbatim>\<open>__setitem__\<close> on one of the three stores, and the store of the
  result in the cache. The trace is bookkeeping only; no branch of the model reads it.
\<close>

datatype event =
    CacheLookup cache_key
  | LogInfo
  | FaceIntegral int int
  | SetItem string int int
  | CacheStore cache_key

text \<open>
  The module state. A finalized result is an object on the heap, a dict from operator
  label to the list \<^verbatim>\<open>to_csr\<close> returned; \<^verbatim>\<open>cached_singular_terms\<close> maps a key to the
  reference of its result, so that returning the same object twice is returning the
  same reference.
\<close>

record 'a state =
  cached_singular_terms :: "cache_key \<Rightarrow> nat option"
  heap :: "(string \<times> 'a ndarray list) list list"
  trace :: "event list"

text \<open>The local dict \<^verbatim>\<open>singular_terms\<close> with its three fixed keys.\<close>

record 'a singular_terms =
  T_EFIE :: "'a MultiSparse"
  T_MFIE :: "'a MultiSparse"
  N_MFIE :: "'a MultiSparse"

definition new_singular_terms :: "nat \<Rightarrow> 'a singular_terms" where
  "new_singular_terms num_terms =
     \<lparr>T_EFIE = MultiSparse_init
         [(float64, Some [num_terms]), (float64, Some [num_terms, 3, 3])],
      T_MFIE = MultiSparse_init [(float64, Some [num_terms, 3, 3])],
      N_MFIE = MultiSparse_init [(float64, Some [num_terms, 3, 3])]\<rparr>"

text \<open>
  An exception raised inside the loops leaves with the trace reached so far.
  \<open>raising tr\<close> attaches it to the exception of a plain computation.
\<close>

definition raising :: "event list \<Rightarrow> error + 'x \<Rightarrow> ('x \<Rightarrow> (error \<times> event list) + 'y)
    \<Rightarrow> (error \<times> event list) + 'y" where
  "raising tr r k = (case r of Inl e \<Rightarrow> Inl (e, tr) | Inr x \<Rightarrow> k x)"

text \<open>\<^verbatim>\<open>sharing_triangles\<close>: the union of the triangles listed for the nodes of \<open>p\<close>.\<close>

definition sharing_triangles :: "'p mesh \<Rightarrow> int list \<Rightarrow> int set" where
  "sharing_triangles m tri = fold (\<lambda>node S. S \<union> set (triangles_sharing_nodes m node)) tri {}"

text \<open>The body of \<^verbatim>\<open>for q in sharing_triangles\<close>, for the observer \<open>p\<close>.\<close>

definition integrate_pair ::
  "('p, 'n, 'a) collaborators \<Rightarrow> 'p basis \<Rightarrow> 'n list \<Rightarrow> int \<Rightarrow> int
     \<Rightarrow> 'a singular_terms \<times> event list
     \<Rightarrow> (error \<times> event list) + ('a singular_terms \<times> event list)" where
  "integrate_pair X b normals p q = (\<lambda>(st, tr).
     raising tr (np_getitem normals p) (\<lambda>normal.
     raising tr (np_getitem (polygons (mesh b)) q) (\<lambda>tri_q.
     raising tr (np_take (nodes (mesh b)) tri_q) (\<lambda>nodes_q.
     raising tr (np_getitem (polygons (mesh b)) p) (\<lambda>tri_p.
     raising tr (np_take (nodes (mesh b)) tri_p) (\<lambda>nodes_p.
       case face_integrals_yla_oijala X nodes_q nodes_p normal of
         None \<Rightarrow> Inl (QuadratureFailure, tr @ [FaceIntegral p q])
       | Some (res0, res1, res2, res3) \<Rightarrow>
           (let tr1 = tr @ [FaceIntegral p q];
                (st1, tr2) =
                  (if q \<noteq> p
                   then (st\<lparr>T_MFIE := setitem (p, q) [res3] (T_MFIE st),
                            N_MFIE := setitem (p, q) [res2] (N_MFIE st)\<rparr>,
                         tr1 @ [SetItem ''T_MFIE'' p q, SetItem ''N_MFIE'' p q])
                   else (st, tr1))
            in Inr (st1\<lparr>T_EFIE := setitem (p, q) [res1, res0] (T_EFIE st1)\<rparr>,
                    tr2 @ [SetItem ''T_EFIE'' p q]))))))))"

text \<open>The body of \<^verbatim>\<open>for p in range(0, num_faces)\<close>.\<close>

definition integrate_observer ::
  "('p, 'n, 'a) collaborators \<Rightarrow> 'p basis \<Rightarrow> 'n list \<Rightarrow> int
     \<Rightarrow> 'a singular_terms \<times> event list
     \<Rightarrow> (error \<times> event list) + ('a singular_terms \<times> event list)" where
  "integrate_observer X b normals p = (\<lambda>(st, tr).
     raising tr (np_getitem (polygons (mesh b)) p) (\<lambda>tri_p.
       for_loop (set_iter X (sharing_triangles (mesh b) tri_p))
         (integrate_pair X b normals p) (st, tr)))"

definition singular_loop ::
  "('p, 'n, 'a) collaborators \<Rightarrow> 'p basis \<Rightarrow> nat \<Rightarrow> 'n list \<Rightarrow> event list
     \<Rightarrow> (error \<times> event list) + ('a singular_terms \<times> event list)" where
  "singular_loop X b num_terms normals tr =
     (let num_faces = int (length (polygons (mesh b)))
      in for_loop (py_range num_faces) (integrate_observer X b normals)
           (new_singular_terms num_terms, tr))"

text \<open>
  \<^verbatim>\<open>{k: v.to_csr(order="F") for k, v in singular_terms.items()}\<close>: the three stores in
  the order of the dict; the first exception ends the comprehension.
\<close>

definition finalize ::
  "'a numpy \<Rightarrow> 'a singular_terms \<Rightarrow> error + (string \<times> 'a ndarray list) list" where
  "finalize N st =
     (case to_csr N F_order (T_EFIE st) of
        Inl e \<Rightarrow> Inl e
      | Inr te \<Rightarrow>
          (case to_csr N F_order (T_MFIE st) of
             Inl e \<Rightarrow> Inl e
           | Inr tm \<Rightarrow>
               (case to_csr N F_order (N_MFIE st) of
                  Inl e \<Rightarrow> Inl e
                | Inr nm \<Rightarrow> Inr [(''T_EFIE'', te), (''T_MFIE'', tm), (''N_MFIE'', nm)])))"

definition unique_id_of ::
  "('p, 'n, 'a) collaborators \<Rightarrow> 'p basis \<Rightarrow> nat \<Rightarrow> real \<Rightarrow> 'n list \<Rightarrow> cache_key" where
  "unique_id_of X b num_terms rel_tol normals =
     (''RWG'', basis_id b, rel_tol, sha1_hexdigest X normals, num_terms)"

definition singular_impedance_rwg ::
  "('p, 'n, 'a) collaborators \<Rightarrow> 'p basis \<Rightarrow> nat \<Rightarrow> real \<Rightarrow> 'n list \<Rightarrow> 'a state
     \<Rightarrow> (error + nat) \<times> 'a state" where
  "singular_impedance_rwg X b num_terms rel_tol normals \<sigma> =
     (if \<not> is_LinearTriangleBasis b
      then (Inl (ValueError ''Basis functions are not RWG based''), \<sigma>)
      else
        (let unique_id = unique_id_of X b num_terms rel_tol normals
         in case cached_singular_terms \<sigma> unique_id of
              Some r \<Rightarrow> (Inr r, \<sigma>\<lparr>trace := trace \<sigma> @ [CacheLookup unique_id]\<rparr>)
            | None \<Rightarrow>
                (case singular_loop X b num_terms normals
                        (trace \<sigma> @ [CacheLookup unique_id, LogInfo]) of
                   Inl (e, tr) \<Rightarrow> (Inl e, \<sigma>\<lparr>trace := tr\<rparr>)
                 | Inr (st, tr) \<Rightarrow>
                     (case finalize (numpy X) st of
                        Inl e \<Rightarrow> (Inl e, \<sigma>\<lparr>trace := tr\<rparr>)
                      | Inr d \<Rightarrow>
                          (let r = length (heap \<sigma>)
                           in (Inr r,
                               \<sigma>\<lparr>cached_singular_terms :=
                                    (cached_singular_terms \<sigma>)(unique_id \<mapsto> r),
                                  heap := heap \<sigma> @ [d],
                                  trace := tr @ [CacheStore unique_id]\<rparr>))))))"

text \<open>The state of a fresh process: \<^verbatim>\<open>cached_singular_terms = {}\<close>.\<close>

definition fresh_state :: "'a state" where
  "fresh_state = \<lparr>cached_singular_terms = Map.empty, heap = [], trace = []\<rparr>"

subsection \<open>What the loops of singular_impedance_rwg do\<close>

text \<open>
  The events of one passage through the body of the inner loop, the pairs the loops
  visit (\<open>touching\<close>: \<open>p\<close> is a triangle of the mesh and \<open>q\<close> is listed for one of the nodes
  of \<open>p\<close>), and the keys a store holds. The lemmas below prove that the loops produce them.
\<close>

definition pair_events :: "int \<Rightarrow> int \<Rightarrow> event list" where
  "pair_events p q =
     FaceIntegral p q
       # (if q \<noteq> p then [SetItem ''T_MFIE'' p q, SetItem ''N_MFIE'' p q] else [])
       @ [SetItem ''T_EFIE'' p q]"

definition touching :: "'p basis \<Rightarrow> int \<Rightarrow> int \<Rightarrow> bool" where
  "touching b p q =
     (0 \<le> p \<and> p < int (length (polygons (mesh b)))
      \<and> q \<in> sharing_triangles (mesh b) (polygons (mesh b) ! nat p))"

definition has_key :: "'a MultiSparse \<Rightarrow> int \<times> int \<Rightarrow> bool" where
  "has_key M index = (case getitem M index of Inr item \<Rightarrow> True | Inl e \<Rightarrow> False)"

definition loop_events :: "('p, 'n, 'a) collaborators \<Rightarrow> 'p basis \<Rightarrow> event list" where
  "loop_events X b =
     concat (map (\<lambda>p. concat (map (pair_events p)
                    (set_iter X (sharing_triangles (mesh b) (polygons (mesh b) ! nat p)))))
               (py_range (int (length (polygons (mesh b))))))"

subsection \<open>The shape of a finalized result\<close>

text \<open>
  \<open>csr_shaped shapes arrs\<close>: \<open>arrs\<close> is one \<^verbatim>\<open>float64\<close> data array for each per-entry shape,
  then one \<^verbatim>\<open>int32\<close> index array and one \<^verbatim>\<open>int32\<close> row-pointer array, all created with
  \<^verbatim>\<open>order="F"\<close>; a data array has the shape \<open>(k,) + shape\<close> for the \<open>k\<close> cells of the index
  array. \<open>bundle_shaped n d\<close>: \<open>d\<close> has the three operator labels, with the sub-arrays of
  \<^verbatim>\<open>T_EFIE\<close> of shape \<open>(n,)\<close> and \<open>(n, 3, 3)\<close> and the one of each magnetic-field term of
  shape \<open>(n, 3, 3)\<close>. \<open>cache_inv\<close> holds of the states the module can reach: a cached
  reference points into the heap at a result shaped for the term count of its key, and
  no two keys share a reference.
\<close>

definition csr_shaped :: "nat list list \<Rightarrow> 'a ndarray list \<Rightarrow> bool" where
  "csr_shaped shapes arrs =
     (length arrs = length shapes + 2
      \<and> (let ind = arrs ! length shapes; ptr = arrs ! (length shapes + 1);
              k = length (cells ind)
          in (\<forall>j<length shapes.
                dtype (arrs ! j) = float64 \<and> shape (arrs ! j) = k # shapes ! j
                \<and> order (arrs ! j) = F_order \<and> length (cells (arrs ! j)) = k)
             \<and> dtype ind = int32 \<and> shape ind = [k] \<and> order ind = F_order
             \<and> dtype ptr = int32 \<and> shape ptr = [length (cells ptr)] \<and> order ptr = F_order))"

definition bundle_shaped :: "nat \<Rightarrow> (string \<times> 'a ndarray list) list \<Rightarrow> bool" where
  "bundle_shaped n d =
     (map fst d = [''T_EFIE'', ''T_MFIE'', ''N_MFIE'']
      \<and> csr_shaped [[n], [n, 3, 3]] (snd (d ! 0))
      \<and> csr_shaped [[n, 3, 3]] (snd (d ! 1))
      \<and> csr_shaped [[n, 3, 3]] (snd (d ! 2)))"

definition key_num_terms :: "cache_key \<Rightarrow> nat" where
  "key_num_terms k = snd (snd (snd (snd k)))"

definition cache_inv :: "'a state \<Rightarrow> bool" where
  "cache_inv \<sigma> =
     ((\<forall>k r. cached_singular_terms \<sigma> k = Some r
          \<longrightarrow> r < length (heap \<sigma>) \<and> bundle_shaped (key_num_terms k) (heap \<sigma> ! r))
      \<and> (\<forall>k k' r. cached_singular_terms \<sigma> k = Some r \<and> cached_singular_terms \<sigma> k' = Some r
          \<longrightarrow> k = k'))"

subsection \<open>The compressed form of the terms of a call\<close>



















text \<open>What holds of the three stores throughout the loops.\<close>

definition terms_inv :: "nat \<Rightarrow> 'a singular_terms \<Rightarrow> bool" where
  "terms_inv n st =
     (subarrays (T_EFIE st) = [(float64, Some [n]), (float64, Some [n, 3, 3])]
      \<and> subarrays (T_MFIE st) = [(float64, Some [n, 3, 3])]
      \<and> subarrays (N_MFIE st) = [(float64, Some [n, 3, 3])]
      \<and> (\<forall>(index, item)\<in>set (items (T_EFIE st)). length item = 2)
      \<and> (\<forall>(index, item)\<in>set (items (T_MFIE st)). length item = 1)
      \<and> (\<forall>(index, item)\<in>set (items (N_MFIE st)). length item = 1))"

subsection \<open>A small mesh\<close>

text \<open>
  Two triangles that share node 2, with the adjacency an adapter derives from them, and
  collaborators that can be evaluated: a constant fingerprint, a kernel that returns four
  numbers, sets iterated in ascending order, and a NumPy for Python integers. The
  theorems below are instantiated on them.

  \<open>float64_of_int\<close> is the conversion of a Python integer to \<^verbatim>\<open>float64\<close>: the nearest
  number with 53 significant bits, ties to the even one, and \<^verbatim>\<open>OverflowError\<close> from
  \<open>2^1024\<close> on; an integer below \<open>2^53\<close> in magnitude is kept. \<open>plain_numpy\<close> stores an
  integer in a \<^verbatim>\<open>float64\<close> slot as that number (broadcast to the shape of the slot) and in
  an \<^verbatim>\<open>int32\<close> slot unchanged when it lies in the range of \<^verbatim>\<open>int32\<close>, with \<^verbatim>\<open>OverflowError\<close>
  outside, as NumPy 2 does for a Python integer.
\<close>

function bit_length :: "int \<Rightarrow> nat" where
  "bit_length n = (if n \<le> 0 then 0 else Suc (bit_length (n div 2)))"
  by pat_completeness auto
termination
  by (relation "measure nat") auto

definition float64_of_int :: "int \<Rightarrow> np_error + int" where
  "float64_of_int v =
     (let a = \<bar>v\<bar>;
          e = bit_length a - 53;
          q = a div 2 ^ e;
          r = a mod 2 ^ e;
          q' = (if 2 ^ e < 2 * r \<or> (2 * r = 2 ^ e \<and> odd q) then q + 1 else q)
      in if 2 ^ 1024 \<le> q' * 2 ^ e then Inl NpOverflowError
         else Inr (sgn v * (q' * 2 ^ e)))"

definition plain_numpy :: "int numpy" where
  "plain_numpy =
     \<lparr>np_store = (\<lambda>dt sh v. case dt of
          float64 \<Rightarrow> float64_of_int v
        | int32 \<Rightarrow> if int32_range v then Inr v else Inl NpOverflowError),
      np_store_int = (\<lambda>dt c. case dt of
          float64 \<Rightarrow> float64_of_int c
        | int32 \<Rightarrow> if int32_range c then Inr c else Inl NpOverflowError)\<rparr>"

definition bowtie :: "nat basis" where
  "bowtie =
     \<lparr>is_LinearTriangleBasis = True, basis_id = 7,
      mesh = \<lparr>polygons = [[0, 1, 2], [2, 3, 4]], nodes = [0, 1, 2, 3, 4],
              triangles_sharing_nodes =
                (\<lambda>node. if node = 2 then [0, 1] else if node < 2 then [0] else [1])\<rparr>\<rparr>"

definition plain_collaborators :: "(nat, nat, int) collaborators" where
  "plain_collaborators =
     \<lparr>sha1_hexdigest = (\<lambda>normals. ''da39a3ee''),
      face_integrals_yla_oijala = (\<lambda>nodes_q nodes_p normal. Some (10, 11, 12, 13)),
      set_iter = sorted_list_of_set, numpy = plain_numpy\<rparr>"

section \<open>Mode Set and Pole Refiner\<close>

text \<open>
  Modelled from the spec: the Refined Mode, a complex eigenfrequency \<open>s\<close> with a right
  eigenvector \<open>v_r\<close> and a left eigenvector \<open>v_l\<close>, and its complex conjugate
  \<open>(s*, v_r*, v_l*)\<close>. The examples call \<^verbatim>\<open>refined.add_conjugates()\<close> and
  \<^verbatim>\<open>sim.refine_poles(estimates, ...)\<close>; the modules that define them are missing from the
  sources.
\<close>

record refined_mode =
  mode_s :: complex
  mode_vr :: "complex list"
  mode_vl :: "complex list"

definition conjugate_mode :: "refined_mode \<Rightarrow> refined_mode" where
  "conjugate_mode m =
     \<lparr>mode_s = cnj (mode_s m), mode_vr = map cnj (mode_vr m), mode_vl = map cnj (mode_vl m)\<rparr>"

text \<open>
  Modelled from the spec: the comparison of two eigenfrequencies "by a numerical tolerance
  on s", which belongs to the missing Mode Set code. The distance is compared on squares,
  so that it evaluates on rational numbers; for \<open>0 \<le> tol\<close> it is \<open>cmod (a - b) \<le> tol\<close>.
\<close>

definition close_to :: "real \<Rightarrow> complex \<Rightarrow> complex \<Rightarrow> bool" where
  "close_to tol a b = ((Re (a - b))\<^sup>2 + (Im (a - b))\<^sup>2 \<le> tol\<^sup>2)"

text \<open>
  Modelled from the spec: \<^verbatim>\<open>add_conjugates\<close> of the Mode Set, whose code is missing. For
  every mode \<open>(s, v_r, v_l)\<close> not already paired with its conjugate within the set
  (some mode of the set has its \<open>s\<close> within the tolerance of \<open>s*\<close>), the new mode
  \<open>(s*, v_r*, v_l*)\<close> is appended.
\<close>

definition paired :: "real \<Rightarrow> refined_mode list \<Rightarrow> refined_mode \<Rightarrow> bool" where
  "paired tol M m = list_ex (\<lambda>m'. close_to tol (mode_s m') (cnj (mode_s m))) M"

definition add_conjugates :: "real \<Rightarrow> refined_mode list \<Rightarrow> refined_mode list" where
  "add_conjugates tol M = M @ map conjugate_mode (filter (\<lambda>m. \<not> paired tol M m) M)"

text \<open>
  Modelled from the spec: the Pole Refiner, whose code is missing. \<open>update\<close> is one step of
  the local iteration on an estimate (the secant or Newton-like update of \<open>s\<close> with the
  refinement of the eigenvector pair, which needs the impedance operator). The iteration
  stops with a refined mode when the relative change in \<open>s\<close> is below the tolerance, and
  with \<open>ConvergenceFailure\<close> when \<open>max_iter\<close> steps are used up. The relative change is
  compared on squares, so that it evaluates on rational numbers: \<open>small_change tol s s'\<close>
  is \<open>cmod (s' - s) < tol * cmod s'\<close>. \<open>refine_poles\<close> takes the estimates in order,
  recovers from the \<open>ConvergenceFailure\<close> of an estimate by dropping it, and returns the
  refined modes of the others.
\<close>

definition small_change :: "real \<Rightarrow> complex \<Rightarrow> complex \<Rightarrow> bool" where
  "small_change tol s s' =
     (0 < tol \<and> (Re (s' - s))\<^sup>2 + (Im (s' - s))\<^sup>2 < tol\<^sup>2 * ((Re s')\<^sup>2 + (Im s')\<^sup>2))"

fun refine_pole ::
  "(refined_mode \<Rightarrow> refined_mode) \<Rightarrow> real \<Rightarrow> nat \<Rightarrow> refined_mode \<Rightarrow> error + refined_mode" where
  "refine_pole update rel_tol 0 m = Inl ConvergenceFailure"
| "refine_pole update rel_tol (Suc max_iter) m =
     (let m' = update m
      in if small_change rel_tol (mode_s m) (mode_s m') then Inr m'
         else refine_pole update rel_tol max_iter m')"

fun refine_poles ::
  "(refined_mode \<Rightarrow> refined_mode) \<Rightarrow> real \<Rightarrow> nat \<Rightarrow> refined_mode list
     \<Rightarrow> error + refined_mode list" where
  "refine_poles update rel_tol max_iter [] = Inr []"
| "refine_poles update rel_tol max_iter (e # estimates) =
     (case refine_pole update rel_tol max_iter e of
        Inl err \<Rightarrow>
          (if err = ConvergenceFailure then refine_poles update rel_tol max_iter estimates
           else Inl err)
      | Inr m \<Rightarrow>
          (case refine_poles update rel_tol max_iter estimates of
             Inl err \<Rightarrow> Inl err
           | Inr ms \<Rightarrow> Inr (m # ms)))"

text \<open>
  Modelled from the spec: what it is for the iteration on an estimate to converge within
  the budget, said of the sequence of iterates and not of the refiner. The iterates of an
  estimate \<open>e\<close> are \<open>e\<close>, \<open>update e\<close>, \<open>update (update e)\<close> and so on; step \<open>k\<close> leads from
  iterate \<open>k\<close> to iterate \<open>k + 1\<close>. The iteration converges within \<open>max_iter\<close> when one of
  the steps \<open>0\<close> to \<open>max_iter - 1\<close> changes \<open>s\<close> by less than the tolerance, relatively, and
  the refined mode is then the iterate that the first such step leads to.
\<close>

definition step_converged ::
  "(refined_mode \<Rightarrow> refined_mode) \<Rightarrow> real \<Rightarrow> refined_mode \<Rightarrow> nat \<Rightarrow> bool" where
  "step_converged update rel_tol e k =
     small_change rel_tol (mode_s ((update ^^ k) e)) (mode_s ((update ^^ Suc k) e))"

definition converges_within ::
  "(refined_mode \<Rightarrow> refined_mode) \<Rightarrow> real \<Rightarrow> nat \<Rightarrow> refined_mode \<Rightarrow> bool" where
  "converges_within update rel_tol max_iter e =
     list_ex (step_converged update rel_tol e) [0..<max_iter]"

definition refined ::
  "(refined_mode \<Rightarrow> refined_mode) \<Rightarrow> real \<Rightarrow> nat \<Rightarrow> refined_mode \<Rightarrow> refined_mode option" where
  "refined update rel_tol max_iter e =
     map_option (\<lambda>k. (update ^^ Suc k) e)
       (find (step_converged update rel_tol e) [0..<max_iter])"

text \<open>
  A mode with a complex eigenfrequency, and an update that halves the distance of \<open>s\<close> to
  the pole \<open>2\<close>, used to instantiate the theorems.
\<close>

definition mode_one :: refined_mode where
  "mode_one = \<lparr>mode_s = Complex (-1) 2, mode_vr = [1, \<i>], mode_vl = [1, - \<i>]\<rparr>"

definition halfway :: "refined_mode \<Rightarrow> refined_mode" where
  "halfway m = m\<lparr>mode_s := Complex (Re (mode_s m) / 2 + 1) (Im (mode_s m) / 2)\<rparr>"

section \<open>Lemmas: to_csr\<close>

lemma store_sub_loop_ok:
  assumes "\<forall>j<length da. dtype (da ! j) = fst (subs ! j) \<and> tl (shape (da ! j)) = elem_shape (subs ! j)"
    and "sc + length item \<le> length da"
    and "\<forall>a\<in>set da. k < length (cells a)"
    and "length w = length item"
    and "\<forall>i<length item.
           np_store N (fst (subs ! (sc + i))) (elem_shape (subs ! (sc + i))) (item ! i) = Inr (w ! i)"
  shows "\<exists>da'. for_loop (enumerate sc item) (store_sub N k) da = Inr da' \<and> length da' = length da \<and>
     (\<forall>j<length da. da' ! j =
        (if sc \<le> j \<and> j < sc + length item
         then (da ! j)\<lparr>cells := (cells (da ! j))[k := Sub (w ! (j - sc))]\<rparr> else da ! j))"
  using assms
proof (induction item arbitrary: sc da w)
  case Nil
  then show ?case by auto
next
  case (Cons x xs)
  from Cons.prems(4) obtain y ys where w: "w = y # ys" "length ys = length xs"
    by (cases w) auto
  let ?a = "(da ! sc)\<lparr>cells := (cells (da ! sc))[k := Sub y]\<rparr>"
  let ?da = "da[sc := ?a]"
  from Cons.prems(2) have sc: "sc < length da" by simp
  with Cons.prems(3) have k: "k < length (cells (da ! sc))" by simp
  from Cons.prems(5)[rule_format, of 0]
  have x: "np_store N (fst (subs ! sc)) (elem_shape (subs ! sc)) x = Inr y" by (simp add: w)
  have step: "store_sub N k (sc, x) da = Inr ?da"
    using sc k x Cons.prems(1) by (simp add: store_sub_def np_setitem_def)
  have ty: "\<forall>j<length ?da. dtype (?da ! j) = fst (subs ! j)
      \<and> tl (shape (?da ! j)) = elem_shape (subs ! j)"
    using Cons.prems(1) sc by (auto simp: nth_list_update)
  have len: "Suc sc + length xs \<le> length ?da" using Cons.prems(2) by simp
  have cl: "\<forall>a\<in>set ?da. k < length (cells a)"
  proof
    fix a assume "a \<in> set ?da"
    then have "a \<in> insert ?a (set da)" using set_update_subset_insert by fast
    then show "k < length (cells a)" using Cons.prems(3) k by auto
  qed
  have rest: "\<forall>i<length xs.
      np_store N (fst (subs ! (Suc sc + i))) (elem_shape (subs ! (Suc sc + i))) (xs ! i) = Inr (ys ! i)"
  proof (intro allI impI)
    fix i assume "i < length xs"
    then show "np_store N (fst (subs ! (Suc sc + i))) (elem_shape (subs ! (Suc sc + i))) (xs ! i)
        = Inr (ys ! i)"
      using Cons.prems(5)[rule_format, of "Suc i"] by (simp add: w)
  qed
  from Cons.IH[OF ty len cl w(2) rest] obtain da' where
    d: "for_loop (enumerate (Suc sc) xs) (store_sub N k) ?da = Inr da'" "length da' = length ?da"
       "\<forall>j<length ?da. da' ! j =
        (if Suc sc \<le> j \<and> j < Suc sc + length xs
         then (?da ! j)\<lparr>cells := (cells (?da ! j))[k := Sub (ys ! (j - Suc sc))]\<rparr> else ?da ! j)"
    by blast
  have "for_loop (enumerate sc (x # xs)) (store_sub N k) da = Inr da'"
    using step d(1) by simp
  moreover have "length da' = length da" using d(2) by simp
  moreover have "\<forall>j<length da. da' ! j =
        (if sc \<le> j \<and> j < sc + length (x # xs)
         then (da ! j)\<lparr>cells := (cells (da ! j))[k := Sub (w ! (j - sc))]\<rparr> else da ! j)"
  proof (intro allI impI)
    fix j assume j: "j < length da"
    show "da' ! j =
        (if sc \<le> j \<and> j < sc + length (x # xs)
         then (da ! j)\<lparr>cells := (cells (da ! j))[k := Sub (w ! (j - sc))]\<rparr> else da ! j)"
    proof (cases "j = sc")
      case True
      then show ?thesis using d(3) j by (simp add: w)
    next
      case False
      then show ?thesis using d(3) j by (auto simp: nth_Cons' w)
    qed
  qed
  ultimately show ?case by blast
qed

lemma store_sub_loop_fail:
  assumes "\<forall>j<length da. dtype (da ! j) = fst (subs ! j) \<and> tl (shape (da ! j)) = elem_shape (subs ! j)"
    and "\<forall>a\<in>set da. k < length (cells a)"
    and "\<not> (\<forall>i<length item. sc + i < length da
            \<and> \<not> isl (np_store N (fst (subs ! (sc + i))) (elem_shape (subs ! (sc + i))) (item ! i)))"
  shows "isl (for_loop (enumerate sc item) (store_sub N k) da)"
  using assms
proof (induction item arbitrary: sc da)
  case Nil
  then show ?case by simp
next
  case (Cons x xs)
  show ?case
  proof (cases "sc < length da")
    case False
    then show ?thesis by (simp add: store_sub_def)
  next
    case True
    with Cons.prems(2) have k: "k < length (cells (da ! sc))" by simp
    show ?thesis
    proof (cases "np_store N (fst (subs ! sc)) (elem_shape (subs ! sc)) x")
      case (Inl e)
      then show ?thesis using True k Cons.prems(1) by (simp add: store_sub_def np_setitem_def)
    next
      case (Inr y)
      let ?a = "(da ! sc)\<lparr>cells := (cells (da ! sc))[k := Sub y]\<rparr>"
      let ?da = "da[sc := ?a]"
      have step: "store_sub N k (sc, x) da = Inr ?da"
        using True k Inr Cons.prems(1) by (simp add: store_sub_def np_setitem_def)
      have ty: "\<forall>j<length ?da. dtype (?da ! j) = fst (subs ! j)
          \<and> tl (shape (?da ! j)) = elem_shape (subs ! j)"
        using Cons.prems(1) True by (auto simp: nth_list_update)
      have cl: "\<forall>a\<in>set ?da. k < length (cells a)"
      proof
        fix a assume "a \<in> set ?da"
        then have "a \<in> insert ?a (set da)" using set_update_subset_insert by fast
        then show "k < length (cells a)" using Cons.prems(2) k by auto
      qed
      have bad: "\<not> (\<forall>i<length xs. Suc sc + i < length ?da
            \<and> \<not> isl (np_store N (fst (subs ! (Suc sc + i))) (elem_shape (subs ! (Suc sc + i)))
                     (xs ! i)))"
      proof
        assume g: "\<forall>i<length xs. Suc sc + i < length ?da
            \<and> \<not> isl (np_store N (fst (subs ! (Suc sc + i))) (elem_shape (subs ! (Suc sc + i)))
                     (xs ! i))"
        have "sc + i < length da
            \<and> \<not> isl (np_store N (fst (subs ! (sc + i))) (elem_shape (subs ! (sc + i))) ((x # xs) ! i))"
          if "i < length (x # xs)" for i
        proof (cases i)
          case 0
          then show ?thesis using Inr True by simp
        next
          case (Suc i')
          with that g show ?thesis by simp
        qed
        with Cons.prems(3) show False by blast
      qed
      from Cons.IH[OF ty cl bad] show ?thesis using step by simp
    qed
  qed
qed

lemma data_array_of_snoc:
  assumes "length E < n"
  shows "data_array_of n ord (E @ [(col, item)]) j sub =
     (if j < length item
      then (data_array_of n ord E j sub)
             \<lparr>cells := (cells (data_array_of n ord E j sub))[length E := Sub (item ! j)]\<rparr>
      else data_array_of n ord E j sub)"
proof -
  from assms obtain d where d: "n - length E = Suc d" "n - Suc (length E) = d"
    by (metis Suc_diff_Suc)
  show ?thesis
    by (simp add: data_array_of_def sub_cell_def d list_update_append replicate_Suc)
qed

lemma index_array_of_snoc:
  assumes "length E < n" and "np_store_int N int32 c = Inr col"
  shows "np_setitem_int N (index_array_of n ord E) (length E) c
           = Inr (index_array_of n ord (E @ [(col, item)]))"
proof -
  from assms(1) obtain d where d: "n - length E = Suc d" "n - Suc (length E) = d"
    by (metis Suc_diff_Suc)
  show ?thesis
    using assms(2) by (simp add: index_array_of_def np_setitem_int_def d list_update_append)
qed

lemma data_arrays_typed:
  "\<forall>j<length (map (\<lambda>j. data_array_of n ord E j (subs ! j)) [0..<length subs]).
     dtype (map (\<lambda>j. data_array_of n ord E j (subs ! j)) [0..<length subs] ! j) = fst (subs ! j)
     \<and> tl (shape (map (\<lambda>j. data_array_of n ord E j (subs ! j)) [0..<length subs] ! j))
         = elem_shape (subs ! j)"
  by (simp add: data_array_of_def)

lemma store_item_step:
  assumes "length E < n" and "storable N subs e"
  shows "store_item N e (csr_after n ord subs E ptr)
           = Inr (csr_after n ord subs (E @ [stored_entry N subs e]) ptr)"
proof -
  obtain c item where e: "e = (c, item)" by (cases e)
  let ?da = "map (\<lambda>j. data_array_of n ord E j (subs ! j)) [0..<length subs]"
  let ?w = "map (\<lambda>j. projr (np_store N (fst (subs ! j)) (elem_shape (subs ! j)) (item ! j)))
              [0..<length item]"
  let ?col = "projr (np_store_int N int32 c)"
  have se: "stored_entry N subs e = (?col, ?w)" by (simp add: stored_entry_def e)
  have cl: "\<forall>a\<in>set ?da. length E < length (cells a)"
    using assms(1) by (auto simp: data_array_of_def)
  have len: "0 + length item \<le> length ?da" using assms(2) by (simp add: storable_def e)
  have lw: "length ?w = length item" by simp
  have conv: "\<forall>i<length item.
      np_store N (fst (subs ! (0 + i))) (elem_shape (subs ! (0 + i))) (item ! i) = Inr (?w ! i)"
    using assms(2) by (simp add: storable_def e)
  have col: "np_store_int N int32 c = Inr ?col" using assms(2) by (simp add: storable_def e)
  from store_sub_loop_ok[OF data_arrays_typed len cl lw conv] obtain da' where
    d: "for_loop (enumerate 0 item) (store_sub N (length E)) ?da = Inr da'"
       "length da' = length ?da"
       "\<forall>j<length ?da. da' ! j =
        (if 0 \<le> j \<and> j < 0 + length item
         then (?da ! j)\<lparr>cells := (cells (?da ! j))[length E := Sub (?w ! (j - 0))]\<rparr> else ?da ! j)"
    by blast
  have "da' = map (\<lambda>j. data_array_of n ord (E @ [(?col, ?w)]) j (subs ! j)) [0..<length subs]"
  proof (rule nth_equalityI)
    show "length da' = length (map (\<lambda>j. data_array_of n ord (E @ [(?col, ?w)]) j (subs ! j)) [0..<length subs])"
      using d(2) by simp
  next
    fix j assume "j < length da'"
    then have j: "j < length subs" using d(2) by simp
    then show "da' ! j = map (\<lambda>j. data_array_of n ord (E @ [(?col, ?w)]) j (subs ! j)) [0..<length subs] ! j"
      using d(3) data_array_of_snoc[OF assms(1), of ord ?col ?w j "subs ! j"] by simp
  qed
  then show ?thesis
    using d(1) index_array_of_snoc[OF assms(1) col, of ord ?w]
    by (simp add: store_item_def csr_after_def se[unfolded e] e)
qed

lemma store_item_fail:
  assumes "length E < n" and "\<not> storable N subs e"
  shows "isl (store_item N e (csr_after n ord subs E ptr))"
proof -
  obtain c item where e: "e = (c, item)" by (cases e)
  let ?da = "map (\<lambda>j. data_array_of n ord E j (subs ! j)) [0..<length subs]"
  have cl: "\<forall>a\<in>set ?da. length E < length (cells a)"
    using assms(1) by (auto simp: data_array_of_def)
  show ?thesis
  proof (cases "length item \<le> length subs
      \<and> (\<forall>j<length item. \<not> isl (np_store N (fst (subs ! j)) (elem_shape (subs ! j)) (item ! j)))")
    case False
    have "\<not> (\<forall>i<length item. 0 + i < length ?da
            \<and> \<not> isl (np_store N (fst (subs ! (0 + i))) (elem_shape (subs ! (0 + i))) (item ! i)))"
    proof (cases "length item \<le> length subs")
      case True
      with False show ?thesis by auto
    next
      case False
      then have "length subs < length item \<and> \<not> 0 + length subs < length ?da" by simp
      then show ?thesis by blast
    qed
    from store_sub_loop_fail[OF data_arrays_typed cl this]
    show ?thesis by (auto simp: store_item_def csr_after_def e split: sum.splits)
  next
    case True
    with assms(2) have "isl (np_store_int N int32 c)" by (simp add: storable_def e)
    then show ?thesis
      using assms(1)
      by (auto simp: store_item_def csr_after_def e np_setitem_int_def index_array_of_def
               split: sum.splits)
  qed
qed

lemma store_items_loop:
  "length E + length rd \<le> n \<Longrightarrow> \<forall>e\<in>set rd. storable N subs e \<Longrightarrow>
   for_loop rd (store_item N) (csr_after n ord subs E ptr)
     = Inr (csr_after n ord subs (E @ map (stored_entry N subs) rd) ptr)"
proof (induction rd arbitrary: E)
  case Nil
  then show ?case by simp
next
  case (Cons e rd)
  have "store_item N e (csr_after n ord subs E ptr)
      = Inr (csr_after n ord subs (E @ [stored_entry N subs e]) ptr)"
    using Cons.prems by (intro store_item_step) auto
  moreover have "for_loop rd (store_item N) (csr_after n ord subs (E @ [stored_entry N subs e]) ptr)
      = Inr (csr_after n ord subs ((E @ [stored_entry N subs e]) @ map (stored_entry N subs) rd) ptr)"
    using Cons.prems by (intro Cons.IH) auto
  ultimately show ?case by simp
qed

lemma store_items_loop_fail:
  "length E + length rd \<le> n \<Longrightarrow> \<exists>e\<in>set rd. \<not> storable N subs e \<Longrightarrow>
   isl (for_loop rd (store_item N) (csr_after n ord subs E ptr))"
proof (induction rd arbitrary: E)
  case Nil
  then show ?case by simp
next
  case (Cons e rd)
  show ?case
  proof (cases "storable N subs e")
    case False
    have "isl (store_item N e (csr_after n ord subs E ptr))"
      using Cons.prems(1) False by (intro store_item_fail) auto
    then show ?thesis by (auto split: sum.splits)
  next
    case True
    have 1: "store_item N e (csr_after n ord subs E ptr)
        = Inr (csr_after n ord subs (E @ [stored_entry N subs e]) ptr)"
      using Cons.prems(1) True by (intro store_item_step) auto
    have "isl (for_loop rd (store_item N) (csr_after n ord subs (E @ [stored_entry N subs e]) ptr))"
      using Cons.prems True by (intro Cons.IH) auto
    with 1 show ?thesis by simp
  qed
qed

lemma store_row_step:
  assumes "length E + length (row_entries rws r) \<le> n"
    and "\<forall>e\<in>set (row_entries rws r). storable N subs e"
  shows "store_row N rws r (csr_after n ord subs E ptr)
     = Inr (csr_after n ord subs (E @ map (stored_entry N subs) (row_entries rws r))
              (ptr @ [int (length E + length (row_entries rws r))]))"
proof (cases "map_of rws r")
  case None
  then show ?thesis by (simp add: store_row_def row_entries_def csr_after_def)
next
  case (Some rd)
  then have rd: "row_entries rws r = rd" by (simp add: row_entries_def)
  have "for_loop rd (store_item N) (csr_after n ord subs E ptr)
      = Inr (csr_after n ord subs (E @ map (stored_entry N subs) rd) ptr)"
    using assms unfolding rd by (rule store_items_loop)
  then show ?thesis using Some by (simp add: store_row_def rd csr_after_def)
qed

lemma store_row_fail:
  assumes "length E + length (row_entries rws r) \<le> n"
    and "\<exists>e\<in>set (row_entries rws r). \<not> storable N subs e"
  shows "isl (store_row N rws r (csr_after n ord subs E ptr))"
proof (cases "map_of rws r")
  case None
  with assms(2) show ?thesis by (simp add: row_entries_def)
next
  case (Some rd)
  then have rd: "row_entries rws r = rd" by (simp add: row_entries_def)
  have "isl (for_loop rd (store_item N) (csr_after n ord subs E ptr))"
    using assms unfolding rd by (rule store_items_loop_fail)
  then show ?thesis using Some by (auto simp: store_row_def split: sum.splits)
qed

lemma store_rows_loop:
  "length E + length (emitted rws R) \<le> n \<Longrightarrow>
   \<forall>e\<in>set (emitted rws R). storable N subs e \<Longrightarrow>
   for_loop R (store_row N rws) (csr_after n ord subs E ptr)
     = Inr (csr_after n ord subs (E @ map (stored_entry N subs) (emitted rws R))
              (ptr @ offsets (length E) (map (\<lambda>r. length (row_entries rws r)) R)))"
proof (induction R arbitrary: E ptr)
  case Nil
  then show ?case by (simp add: emitted_def)
next
  case (Cons r R)
  have em: "emitted rws (r # R) = row_entries rws r @ emitted rws R" by (simp add: emitted_def)
  have 1: "store_row N rws r (csr_after n ord subs E ptr)
     = Inr (csr_after n ord subs (E @ map (stored_entry N subs) (row_entries rws r))
              (ptr @ [int (length E + length (row_entries rws r))]))"
    using Cons.prems by (intro store_row_step) (auto simp: em)
  have 2: "for_loop R (store_row N rws)
              (csr_after n ord subs (E @ map (stored_entry N subs) (row_entries rws r))
                 (ptr @ [int (length E + length (row_entries rws r))]))
     = Inr (csr_after n ord subs
              ((E @ map (stored_entry N subs) (row_entries rws r))
                 @ map (stored_entry N subs) (emitted rws R))
              ((ptr @ [int (length E + length (row_entries rws r))])
                 @ offsets (length (E @ map (stored_entry N subs) (row_entries rws r)))
                     (map (\<lambda>r. length (row_entries rws r)) R)))"
    using Cons.prems by (intro Cons.IH) (auto simp: em)
  show ?case using 1 2 by (simp add: em)
qed

lemma store_rows_loop_fail:
  "length E + length (emitted rws R) \<le> n \<Longrightarrow>
   \<exists>e\<in>set (emitted rws R). \<not> storable N subs e \<Longrightarrow>
   isl (for_loop R (store_row N rws) (csr_after n ord subs E ptr))"
proof (induction R arbitrary: E ptr)
  case Nil
  then show ?case by (simp add: emitted_def)
next
  case (Cons r R)
  have em: "emitted rws (r # R) = row_entries rws r @ emitted rws R" by (simp add: emitted_def)
  show ?case
  proof (cases "\<forall>e\<in>set (row_entries rws r). storable N subs e")
    case False
    have "isl (store_row N rws r (csr_after n ord subs E ptr))"
      using Cons.prems(1) False by (intro store_row_fail) (auto simp: em)
    then show ?thesis by (auto split: sum.splits)
  next
    case True
    have 1: "store_row N rws r (csr_after n ord subs E ptr)
       = Inr (csr_after n ord subs (E @ map (stored_entry N subs) (row_entries rws r))
              (ptr @ [int (length E + length (row_entries rws r))]))"
      using Cons.prems(1) True by (intro store_row_step) (auto simp: em)
    have "isl (for_loop R (store_row N rws)
              (csr_after n ord subs (E @ map (stored_entry N subs) (row_entries rws r))
                 (ptr @ [int (length E + length (row_entries rws r))])))"
      using Cons.prems True by (intro Cons.IH) (auto simp: em)
    with 1 show ?thesis by simp
  qed
qed

lemma np_store_ints_ok:
  "\<forall>x\<in>set xs. \<not> isl (np_store_int N dt x) \<Longrightarrow>
   np_store_ints N dt xs = Inr (map (\<lambda>x. projr (np_store_int N dt x)) xs)"
  by (induction xs) (auto split: sum.splits)

lemma np_store_ints_fail:
  "\<exists>x\<in>set xs. isl (np_store_int N dt x) \<Longrightarrow> isl (np_store_ints N dt xs)"
proof (induction xs)
  case Nil
  then show ?case by simp
next
  case (Cons a xs)
  show ?case
  proof (cases "np_store_int N dt a")
    case (Inl e)
    then show ?thesis by simp
  next
    case (Inr c)
    with Cons.prems have "\<exists>x\<in>set xs. isl (np_store_int N dt x)" by auto
    from Cons.IH[OF this] show ?thesis using Inr by (auto split: sum.splits)
  qed
qed

lemma np_store_ints_error: "np_store_ints N dt xs = Inl e \<Longrightarrow> \<exists>ne. e = NumPyError ne"
  by (induction xs) (auto split: sum.splits)

lemma py_max_Max: "xs \<noteq> [] \<Longrightarrow> py_max xs = Inr (Max (set xs))"
  by (cases xs) (simp_all add: Max.set_eq_fold [symmetric])

lemma distinct_py_range: "distinct (py_range n)"
  by (simp add: py_range_def distinct_map)

lemma set_py_range: "set (py_range n) = {r. 0 \<le> r \<and> r < n}"
proof -
  have "int ` {0..<nat n} = {r. 0 \<le> r \<and> r < n}"
  proof (intro set_eqI iffI)
    fix r assume "r \<in> int ` {0..<nat n}"
    then show "r \<in> {r. 0 \<le> r \<and> r < n}" by auto
  next
    fix r assume "r \<in> {r. 0 \<le> r \<and> r < n}"
    then have "r = int (nat r)" "nat r \<in> {0..<nat n}" by auto
    then show "r \<in> int ` {0..<nat n}" by (rule image_eqI)
  qed
  then show ?thesis by (simp add: py_range_def)
qed

lemma row_entries_Cons:
  "row_entries ((k, rd) # rws) r = (if r = k then rd else row_entries rws r)"
  by (simp add: row_entries_def)

lemma length_emitted_Cons:
  "length (emitted ((k, rd) # rws) R)
     = count_list R k * length rd + length (emitted rws (filter (\<lambda>r. r \<noteq> k) R))"
  by (induction R) (simp_all add: emitted_def row_entries_Cons)

lemma count_list_distinct_le: "distinct R \<Longrightarrow> count_list R k \<le> 1"
  by (induction R) auto

lemma count_list_distinct_mem: "distinct R \<Longrightarrow> k \<in> set R \<Longrightarrow> count_list R k = 1"
  by (induction R) auto

lemma length_emitted_le:
  "distinct R \<Longrightarrow> length (emitted rws R) \<le> sum_list (map (\<lambda>(row, row_dict). length row_dict) rws)"
proof (induction rws arbitrary: R)
  case Nil
  then show ?case by (simp add: emitted_def row_entries_def)
next
  case (Cons p rws)
  obtain k rd where p: "p = (k, rd)" by (cases p)
  have "count_list R k * length rd \<le> 1 * length rd"
    using count_list_distinct_le[OF Cons.prems, of k] by (rule mult_le_mono1)
  then have a: "count_list R k * length rd \<le> length rd" by (simp only: nat_mult_1)
  have b: "length (emitted rws (filter (\<lambda>r. r \<noteq> k) R))
      \<le> sum_list (map (\<lambda>(row, row_dict). length row_dict) rws)"
    using Cons.prems by (intro Cons.IH) simp
  have "length (emitted (p # rws) R)
      = count_list R k * length rd + length (emitted rws (filter (\<lambda>r. r \<noteq> k) R))"
    unfolding p by (rule length_emitted_Cons)
  also have "\<dots> \<le> length rd + sum_list (map (\<lambda>(row, row_dict). length row_dict) rws)"
    using a b by (rule add_mono)
  finally show ?case by (simp add: p)
qed

lemma length_emitted_eq:
  "distinct R \<Longrightarrow> distinct (map fst rws) \<Longrightarrow> set (map fst rws) \<subseteq> set R \<Longrightarrow>
   length (emitted rws R) = sum_list (map (\<lambda>(row, row_dict). length row_dict) rws)"
proof (induction rws arbitrary: R)
  case Nil
  then show ?case by (simp add: emitted_def row_entries_def)
next
  case (Cons p rws)
  obtain k rd where p: "p = (k, rd)" by (cases p)
  have "count_list R k = 1"
    using Cons.prems by (intro count_list_distinct_mem) (auto simp: p)
  moreover have "length (emitted rws (filter (\<lambda>r. r \<noteq> k) R))
      = sum_list (map (\<lambda>(row, row_dict). length row_dict) rws)"
    using Cons.prems by (intro Cons.IH) (auto simp: p)
  ultimately show ?case by (simp add: p length_emitted_Cons)
qed

lemma csr_initial:
  "\<lparr>data_arrays = map (\<lambda>(dt, shape).
              case shape of None \<Rightarrow> np_empty n [] dt ord
                          | Some sh \<Rightarrow> np_empty n sh dt ord) subs,
    indices = np_empty n [] int32 ord, data_index = 0, indptr = [0]\<rparr>
   = csr_after n ord subs [] [0]"
proof -
  have "map (\<lambda>(dt, shape). case shape of None \<Rightarrow> np_empty n [] dt ord
                          | Some sh \<Rightarrow> np_empty n sh dt ord) subs
        = map (\<lambda>j. data_array_of n ord [] j (subs ! j)) [0..<length subs]"
    by (rule nth_equalityI)
       (auto simp: data_array_of_def np_empty_def elem_shape_def split: prod.splits option.splits)
  then show ?thesis
    by (simp add: csr_after_def index_array_of_def np_empty_def)
qed

lemma to_csr_loop:
  assumes ne: "rows M \<noteq> []"
    and st: "\<forall>e\<in>set (csr_entries M). storable N (subarrays M) e"
  shows "for_loop (row_range (rows M)) (store_row N (rows M))
            (csr_after (len M) ord (subarrays M) [] [0])
     = Inr (csr_after (len M) ord (subarrays M)
              (map (stored_entry N (subarrays M)) (csr_entries M)) (csr_indptr M))"
proof -
  let ?R = "row_range (rows M)"
  have le: "length ([]::(int \<times> 'a list) list) + length (emitted (rows M) ?R) \<le> len M"
    using length_emitted_le[of ?R "rows M"] by (simp add: row_range_def distinct_py_range len_def)
  have st': "\<forall>e\<in>set (emitted (rows M) ?R). storable N (subarrays M) e"
    using st by (simp add: csr_entries_def)
  from store_rows_loop[OF le st', of ord "[0]"]
  show ?thesis by (simp add: csr_entries_def csr_indptr_def)
qed

lemma to_csr_ok:
  assumes "csr_ok N M"
  shows "to_csr N ord M = Inr (csr_result N ord M)"
proof -
  from assms have ne: "rows M \<noteq> []"
    and st: "\<forall>e\<in>set (csr_entries M). storable N (subarrays M) e"
    and pt: "\<forall>p\<in>set (csr_indptr M). \<not> isl (np_store_int N int32 p)"
    by (simp_all add: csr_ok_def)
  have mx: "py_max (map fst (rows M)) = Inr (Max (set (map fst (rows M))))"
    using ne by (intro py_max_Max) simp
  have ptr: "np_store_ints N int32 (csr_indptr M)
      = Inr (map (\<lambda>x. projr (np_store_int N int32 x)) (csr_indptr M))"
    using pt by (rule np_store_ints_ok)
  show ?thesis
    unfolding to_csr_def Let_def mx csr_initial
    using to_csr_loop[OF ne st, of ord] ptr
    by (simp add: row_range_def csr_after_def csr_result_def np_array_def comp_def Let_def)
qed

lemma to_csr_fail:
  assumes "\<not> csr_ok N M"
  shows "isl (to_csr N ord M)"
proof (cases "rows M = []")
  case True
  then show ?thesis by (simp add: to_csr_def)
next
  case ne: False
  have mx: "py_max (map fst (rows M)) = Inr (Max (set (map fst (rows M))))"
    using ne by (intro py_max_Max) simp
  let ?R = "row_range (rows M)"
  have le: "length ([]::(int \<times> 'a list) list) + length (emitted (rows M) ?R) \<le> len M"
    using length_emitted_le[of ?R "rows M"] by (simp add: row_range_def distinct_py_range len_def)
  show ?thesis
  proof (cases "\<forall>e\<in>set (csr_entries M). storable N (subarrays M) e")
    case False
    then have "\<exists>e\<in>set (emitted (rows M) ?R). \<not> storable N (subarrays M) e"
      by (simp add: csr_entries_def)
    from store_rows_loop_fail[OF le this, of ord "[0]"]
    show ?thesis
      unfolding to_csr_def Let_def mx csr_initial
      by (auto simp: row_range_def split: sum.splits)
  next
    case st: True
    with assms ne have "\<not> (\<forall>p\<in>set (csr_indptr M). \<not> isl (np_store_int N int32 p))"
      by (simp add: csr_ok_def)
    then have "isl (np_store_ints N int32 (csr_indptr M))"
      by (intro np_store_ints_fail) simp
    then show ?thesis
      unfolding to_csr_def Let_def mx csr_initial
      using to_csr_loop[OF ne st, of ord]
      by (auto simp: row_range_def csr_after_def np_array_def split: sum.splits)
  qed
qed

lemma to_csr_iff: "to_csr N ord M = Inr out \<longleftrightarrow> csr_ok N M \<and> out = csr_result N ord M"
proof (cases "csr_ok N M")
  case True
  then show ?thesis by (auto simp: to_csr_ok)
next
  case False
  then have "isl (to_csr N ord M)" by (rule to_csr_fail)
  with False show ?thesis by auto
qed

lemma length_offsets: "length (offsets k ls) = length ls"
  by (induction ls arbitrary: k) auto

lemma offsets_ge: "y \<in> set (offsets k ls) \<Longrightarrow> int k \<le> y"
  by (induction ls arbitrary: k) force+

lemma sorted_offsets: "sorted (int k # offsets k ls)"
proof (induction ls arbitrary: k)
  case Nil
  show ?case by simp
next
  case (Cons l ls)
  have "\<forall>y\<in>set (offsets (k + l) ls). int k \<le> y"
    using offsets_ge[of _ "k + l" ls] by fastforce
  with Cons[of "k + l"] show ?case by simp
qed

lemma offsets_nth:
  "i \<le> length ls \<Longrightarrow> (int k # offsets k ls) ! i = int (k + sum_list (take i ls))"
proof (induction ls arbitrary: k i)
  case Nil
  then show ?case by simp
next
  case (Cons l ls)
  show ?case
  proof (cases i)
    case 0
    then show ?thesis by simp
  next
    case (Suc i')
    with Cons.prems have "i' \<le> length ls" by simp
    from Cons.IH[OF this, of "k + l"] show ?thesis by (simp add: Suc add.assoc)
  qed
qed

lemma last_offsets: "last (int k # offsets k ls) = int (k + sum_list ls)"
proof -
  have "last (int k # offsets k ls)
      = (int k # offsets k ls) ! (length (int k # offsets k ls) - 1)"
    by (rule last_conv_nth) simp
  also have "\<dots> = (int k # offsets k ls) ! length ls"
    by (simp add: length_offsets)
  also have "\<dots> = int (k + sum_list ls)"
    using offsets_nth[of "length ls" ls k] by simp
  finally show ?thesis .
qed

lemma sum_row_lengths:
  "sum_list (map (\<lambda>r. length (row_entries rws r)) R) = length (emitted rws R)"
  by (simp add: emitted_def length_concat comp_def)

lemma emitted_append: "emitted rws (R @ R') = emitted rws R @ emitted rws R'"
  by (simp add: emitted_def)

lemma emitted_split:
  assumes "i < length R"
  shows "emitted rws R
     = emitted rws (take i R) @ row_entries rws (R ! i) @ emitted rws (drop (Suc i) R)"
proof -
  have "R = take i R @ R ! i # drop (Suc i) R" using assms by (rule id_take_nth_drop)
  then have "emitted rws R = emitted rws (take i R @ R ! i # drop (Suc i) R)" by simp
  then show ?thesis by (simp add: emitted_def)
qed

lemma emitted_take_Suc:
  assumes "i < length R"
  shows "emitted rws (take (Suc i) R) = emitted rws (take i R) @ row_entries rws (R ! i)"
  using assms by (simp add: take_Suc_conv_app_nth emitted_def)

lemma py_slice_middle: "py_slice (A @ B @ C) (length A) (length A + length B) = B"
  by (simp add: py_slice_def)

lemma py_slice_map: "py_slice (map f xs) lo hi = map f (py_slice xs lo hi)"
  by (simp add: py_slice_def take_map drop_map)

lemma csr_indptr_nth:
  assumes "i \<le> length (row_range (rows M))"
  shows "csr_indptr M ! i = int (length (emitted (rows M) (take i (row_range (rows M)))))"
proof -
  have "csr_indptr M ! i
      = int (sum_list (take i (map (\<lambda>r. length (row_entries (rows M) r)) (row_range (rows M)))))"
    using assms offsets_nth[of i "map (\<lambda>r. length (row_entries (rows M) r)) (row_range (rows M))" 0]
    by (simp add: csr_indptr_def)
  then show ?thesis by (simp add: take_map sum_row_lengths)
qed

lemma csr_slice:
  assumes "i < length (row_range (rows M))"
  shows "py_slice (csr_entries M) (nat (csr_indptr M ! i)) (nat (csr_indptr M ! Suc i))
     = row_entries (rows M) (row_range (rows M) ! i)"
proof -
  let ?R = "row_range (rows M)"
  let ?A = "emitted (rows M) (take i ?R)"
  let ?B = "row_entries (rows M) (?R ! i)"
  have a: "nat (csr_indptr M ! i) = length ?A"
    using assms by (simp add: csr_indptr_nth)
  have b: "nat (csr_indptr M ! Suc i) = length ?A + length ?B"
    using assms by (simp add: csr_indptr_nth emitted_take_Suc)
  have "csr_entries M = ?A @ ?B @ emitted (rows M) (drop (Suc i) ?R)"
    unfolding csr_entries_def using assms by (rule emitted_split)
  then show ?thesis unfolding a b by (simp add: py_slice_middle)
qed

lemma row_range_nth: "i < length (row_range rws) \<Longrightarrow> row_range rws ! i = int i"
  by (simp add: row_range_def py_range_def)

section \<open>Lemmas: the store operations\<close>

lemma dict_set_nonempty: "dict_set k v d \<noteq> []"
  by (cases d) (auto split: if_splits)

lemma map_of_dict_set: "map_of (dict_set k v d) = (map_of d)(k \<mapsto> v)"
  by (induction d) (auto simp: fun_eq_iff)

lemma keys_dict_set:
  "map fst (dict_set k v d) = (if k \<in> set (map fst d) then map fst d else map fst d @ [k])"
  by (induction d) force+

lemma distinct_dict_set: "distinct (map fst d) \<Longrightarrow> distinct (map fst (dict_set k v d))"
  by (simp add: keys_dict_set)

lemma rows_setitem_nonempty: "rows (setitem index item M) \<noteq> []"
  by (simp add: setitem_def dict_set_nonempty split: prod.splits option.splits)

lemma subarrays_setitem: "subarrays (setitem index item M) = subarrays M"
  by (simp add: setitem_def split: prod.splits option.splits)

lemma distinct_rows_setitem:
  "distinct (map fst (rows M)) \<Longrightarrow> distinct (map fst (rows (setitem index item M)))"
  by (simp add: setitem_def distinct_dict_set split: prod.splits option.splits)

lemma getitem_setitem:
  "getitem (setitem index item M) index' = (if index' = index then Inr item else getitem M index')"
  by (cases index; cases index')
     (auto simp: getitem_def setitem_def map_of_dict_set split: option.splits)

lemma build_snoc: "build subs (ops @ [(index, item)]) = setitem index item (build subs ops)"
  by (simp add: build_def)

lemma build_Nil: "build subs [] = MultiSparse_init subs"
  by (simp add: build_def)

lemma subarrays_build: "subarrays (build subs ops) = subs"
proof (induction ops rule: rev_induct)
  case Nil
  show ?case by (simp add: build_Nil MultiSparse_init_def)
next
  case (snoc x xs)
  then show ?case by (cases x) (simp add: build_snoc subarrays_setitem)
qed

lemma rows_build_empty: "rows (build subs ops) = [] \<longleftrightarrow> ops = []"
proof (cases ops rule: rev_cases)
  case Nil
  then show ?thesis by (simp add: build_Nil MultiSparse_init_def)
next
  case (snoc xs x)
  then show ?thesis by (cases x) (simp add: build_snoc rows_setitem_nonempty)
qed

lemma distinct_rows_build: "distinct (map fst (rows (build subs ops)))"
proof (induction ops rule: rev_induct)
  case Nil
  show ?case by (simp add: build_Nil MultiSparse_init_def)
next
  case (snoc x xs)
  then show ?case by (cases x) (simp add: build_snoc distinct_rows_setitem)
qed

lemma len_items: "len M = length (items M)"
  by (simp add: len_def items_def length_concat comp_def case_prod_unfold)

lemma emitted_in_items:
  assumes "e \<in> set (emitted rws R)"
  shows "\<exists>r rd. (r, rd) \<in> set rws \<and> e \<in> set rd"
proof -
  from assms obtain r where "e \<in> set (row_entries rws r)" by (auto simp: emitted_def)
  then show ?thesis
    by (cases "map_of rws r") (auto simp: row_entries_def dest: map_of_SomeD)
qed

lemma csr_entries_in_items:
  assumes "e \<in> set (csr_entries M)"
  shows "\<exists>r. ((r, fst e), snd e) \<in> set (items M)"
proof -
  from emitted_in_items[OF assms[unfolded csr_entries_def]]
  obtain r rd where "(r, rd) \<in> set (rows M)" "e \<in> set rd" by blast
  then have "((r, fst e), snd e) \<in> set (items M)"
    by (force simp: items_def)
  then show ?thesis ..
qed

lemma length_index_array_of: "length (cells (index_array_of n ord E)) = length E + (n - length E)"
  by (simp add: index_array_of_def)

lemma set_dict_set: "set (dict_set k v d) \<subseteq> insert (k, v) (set d)"
  by (induction d) (auto split: if_splits)

lemma inner_nonempty_setitem:
  assumes "\<forall>(r, rd)\<in>set (rows M). rd \<noteq> []"
  shows "\<forall>(r, rd)\<in>set (rows (setitem index item M)). rd \<noteq> []"
proof -
  obtain row col where index: "index = (row, col)" by (cases index)
  show ?thesis
  proof (cases "map_of (rows M) row")
    case None
    then have "set (rows (setitem index item M)) \<subseteq> insert (row, [(col, item)]) (set (rows M))"
      using set_dict_set by (simp add: setitem_def index)
    with assms show ?thesis by fastforce
  next
    case (Some rd)
    then have "set (rows (setitem index item M))
        \<subseteq> insert (row, dict_set col item rd) (set (rows M))"
      using set_dict_set by (simp add: setitem_def index)
    with assms show ?thesis using dict_set_nonempty[of col item rd] by fastforce
  qed
qed

lemma inner_nonempty_build: "\<forall>(r, rd)\<in>set (rows (build subs ops)). rd \<noteq> []"
proof (induction ops rule: rev_induct)
  case Nil
  show ?case by (simp add: build_Nil MultiSparse_init_def)
next
  case (snoc x xs)
  then show ?case by (cases x) (simp add: build_snoc inner_nonempty_setitem)
qed

lemma row_key_has_item:
  assumes "(r, rd) \<in> set (rows M)" and "rd \<noteq> []"
  shows "\<exists>c item. ((r, c), item) \<in> set (items M)"
proof -
  from assms(2) obtain c item where "(c, item) \<in> set rd" by (cases rd) auto
  with assms(1) have "((r, c), item) \<in> set (items M)" by (force simp: items_def)
  then show ?thesis by blast
qed

lemma rows_in_range:
  assumes inner: "\<forall>(r, rd)\<in>set (rows M). rd \<noteq> []"
    and nonneg: "\<forall>(index, item)\<in>set (items M). 0 \<le> fst index"
  shows "set (map fst (rows M)) \<subseteq> set (row_range (rows M))"
proof
  fix r assume r: "r \<in> set (map fst (rows M))"
  then obtain rd where rd: "(r, rd) \<in> set (rows M)" by auto
  with inner have "rd \<noteq> []" by auto
  from row_key_has_item[OF rd this] nonneg have "0 \<le> r" by fastforce
  moreover have "r \<le> Max (set (map fst (rows M)))" using r by (intro Max_ge) auto
  ultimately show "r \<in> set (row_range (rows M))"
    by (simp add: row_range_def set_py_range)
qed

lemma length_csr_entries:
  assumes "\<forall>(index, item)\<in>set (items (build subs ops)). 0 \<le> fst index"
  shows "length (csr_entries (build subs ops)) = len (build subs ops)"
  unfolding csr_entries_def len_def
  by (intro length_emitted_eq distinct_rows_build rows_in_range[OF inner_nonempty_build assms])
     (simp add: row_range_def distinct_py_range)

lemma length_row_range: "length (csr_indptr M) = length (row_range (rows M)) + 1"
  by (simp add: csr_indptr_def length_offsets)

lemma fit_csr_entries:
  assumes "\<forall>(index, item)\<in>set (items M). P item"
  shows "\<forall>e\<in>set (csr_entries M). P (snd e)"
proof
  fix e assume "e \<in> set (csr_entries M)"
  then obtain r where "((r, fst e), snd e) \<in> set (items M)"
    using csr_entries_in_items by blast
  with assms show "P (snd e)" by auto
qed

lemma map_of_tagged_row:
  "map_of (map (\<lambda>(col, item). ((k, col), item)) rd) (r, c) = (if r = k then map_of rd c else None)"
  by (induction rd) auto

lemma map_of_tagged_rows:
  "map_of (concat (map (\<lambda>r. map (\<lambda>(col, item). ((r, col), item)) (G r)) R)) (r, c)
     = (if r \<in> set R then map_of (G r) c else None)"
proof (induction R)
  case Nil
  show ?case by simp
next
  case (Cons r0 R)
  show ?case
  proof (cases "r = r0")
    case True
    show ?thesis
      using Cons unfolding True
      by (cases "map_of (G r0) c") (simp_all add: map_add_def map_of_tagged_row)
  next
    case False
    then show ?thesis
      using Cons by (simp add: map_add_def map_of_tagged_row)
  qed
qed

lemma map_of_items:
  assumes "distinct (map fst (rows M))"
  shows "map_of (items M) (r, c)
     = (case map_of (rows M) r of None \<Rightarrow> None | Some rd \<Rightarrow> map_of rd c)"
proof -
  have "distinct (map fst rws) \<Longrightarrow>
     map_of (concat (map (\<lambda>(row, rd). map (\<lambda>(col, item). ((row, col), item)) rd) rws)) (r, c)
     = (case map_of rws r of None \<Rightarrow> None | Some rd \<Rightarrow> map_of rd c)" for rws
  proof (induction rws)
    case Nil
    show ?case by simp
  next
    case (Cons p rws)
    obtain k rd where p: "p = (k, rd)" by (cases p)
    from Cons.prems have "k \<notin> fst ` set rws" by (simp add: p)
    then have k: "map_of rws k = None" by (simp add: map_of_eq_None_iff)
    from Cons.prems have "distinct (map fst rws)" by simp
    note IH = Cons.IH[OF this]
    show ?case
    proof (cases "r = k")
      case True
      show ?thesis
        using IH k unfolding True p
        by (cases "map_of rd c") (simp_all add: map_add_def map_of_tagged_row)
    next
      case False
      then show ?thesis
        using IH by (simp add: p map_add_def map_of_tagged_row)
    qed
  qed
  from this[OF assms] show ?thesis by (simp add: items_def)
qed

lemma getitem_map_of_items:
  assumes "distinct (map fst (rows M))"
  shows "getitem M index = (case map_of (items M) index of Some item \<Rightarrow> Inr item | None \<Rightarrow> Inl KeyError)"
  by (cases index) (simp add: getitem_def map_of_items[OF assms] split: option.splits)

lemma map_nth_slice:
  assumes "b \<le> length xs"
  shows "map (\<lambda>k. f (xs ! k)) [a..<b] = map f (py_slice xs a b)"
proof -
  have "map (\<lambda>k. xs ! k) [a..<b] = py_slice xs a b"
    using assms by (intro nth_equalityI) (auto simp: py_slice_def)
  then have "map f (map (\<lambda>k. xs ! k) [a..<b]) = map f (py_slice xs a b)" by simp
  then show ?thesis by (simp add: comp_def)
qed

lemma length_emitted_take: "length (emitted rws (take i R)) \<le> length (emitted rws R)"
proof -
  have "emitted rws R = emitted rws (take i R) @ emitted rws (drop i R)"
    using emitted_append[of rws "take i R" "drop i R"] by simp
  then show ?thesis by simp
qed

lemma csr_indptr_le:
  assumes "i \<le> length (row_range (rows M))"
  shows "nat (csr_indptr M ! i) \<le> length (csr_entries M)"
  using assms by (simp add: csr_indptr_nth csr_entries_def length_emitted_take)

lemma length_stored_entry: "length (snd (stored_entry N subs e)) = length (snd e)"
  by (simp add: stored_entry_def)

lemma from_csr_closed:
  assumes lenE: "length (csr_entries M) = len M"
    and fit: "\<forall>e\<in>set (csr_entries M). length (snd e) = length (subarrays M)"
    and ptr: "\<forall>p\<in>set (csr_indptr M). np_store_int N int32 p = Inr p"
  shows "from_csr (csr_result N ord M)
     = concat (map (\<lambda>r. map (\<lambda>(col, item). ((r, col), item))
                          (map (stored_entry N (subarrays M)) (row_entries (rows M) r)))
                (row_range (rows M)))"
proof -
  let ?S = "stored_entry N (subarrays M)"
  let ?E = "map ?S (csr_entries M)"
  let ?m = "length (subarrays M)"
  let ?DA = "map (\<lambda>j. data_array_of (len M) ord ?E j (subarrays M ! j)) [0..<?m]"
  let ?P = "\<lparr>dtype = int32, shape = [length (csr_indptr M)], order = ord,
             cells = map (\<lambda>p. Index (projr (np_store_int N int32 p))) (csr_indptr M)\<rparr>"
  let ?out = "?DA @ [index_array_of (len M) ord ?E, ?P]"
  let ?R = "row_range (rows M)"
  let ?ptr = "csr_indptr M"
  let ?ind = "map fst ?E"
  let ?dat = "map (\<lambda>j. map (\<lambda>e. snd e ! j) ?E) [0..<?m]"
  have res: "csr_result N ord M = ?out" by (simp add: csr_result_def Let_def)
  have lenE': "length ?E = len M" using lenE by simp
  have fit': "\<forall>e\<in>set ?E. length (snd e) = ?m"
    using fit by (auto simp: length_stored_entry)
  have n: "length ?out = ?m + 2" by simp
  have "map (\<lambda>p. projr (np_store_int N int32 p)) ?ptr = map (\<lambda>p. p) ?ptr"
    using ptr by (intro map_cong refl) simp
  then have p1: "map the_index (cells (?out ! (length ?out - 1))) = ?ptr"
    by (simp add: nth_append comp_def)
  have p2: "map the_index (cells (?out ! (length ?out - 2))) = ?ind"
    by (simp add: nth_append index_array_of_def lenE comp_def)
  have p3: "map (\<lambda>a. map the_sub (cells a)) (take (length ?out - 2) ?out) = ?dat"
  proof -
    have "map the_sub (map (\<lambda>e. sub_cell (snd e) j) ?E) = map (\<lambda>e. snd e ! j) ?E" if "j < ?m" for j
      using that fit' by (simp add: sub_cell_def comp_def)
    then have "map (\<lambda>j. map the_sub (map (\<lambda>e. sub_cell (snd e) j) ?E)) [0..<?m] = ?dat"
      by (intro map_cong refl) simp
    then show ?thesis
      using lenE by (simp add: data_array_of_def comp_def)
  qed
  have row: "map (\<lambda>k. ((int r, ?ind ! k), map (\<lambda>d. d ! k) ?dat)) [nat (?ptr ! r)..<nat (?ptr ! Suc r)]
      = map (\<lambda>(col, item). ((int r, col), item)) (map ?S (row_entries (rows M) (int r)))"
    if r: "r < length ?R" for r
  proof -
    from r have b: "nat (?ptr ! Suc r) \<le> length ?E" using csr_indptr_le[of "Suc r" M] by simp
    have "((int r, ?ind ! k), map (\<lambda>d. d ! k) ?dat) = ((int r, fst (?E ! k)), snd (?E ! k))"
      if "k \<in> set [nat (?ptr ! r)..<nat (?ptr ! Suc r)]" for k
    proof -
      from that b have k: "k < length ?E" by simp
      then have "length (snd (?E ! k)) = ?m" using fit' nth_mem by blast
      then have "map (\<lambda>j. snd (?E ! k) ! j) [0..<?m] = snd (?E ! k)"
        using map_nth[of "snd (?E ! k)"] by simp
      then show ?thesis using k by (simp add: comp_def)
    qed
    then have "map (\<lambda>k. ((int r, ?ind ! k), map (\<lambda>d. d ! k) ?dat)) [nat (?ptr ! r)..<nat (?ptr ! Suc r)]
        = map (\<lambda>k. ((int r, fst (?E ! k)), snd (?E ! k))) [nat (?ptr ! r)..<nat (?ptr ! Suc r)]"
      by (intro map_cong refl)
    also have "\<dots> = map (\<lambda>e. ((int r, fst e), snd e)) (py_slice ?E (nat (?ptr ! r)) (nat (?ptr ! Suc r)))"
      using b by (rule map_nth_slice)
    also have "py_slice ?E (nat (?ptr ! r)) (nat (?ptr ! Suc r))
        = map ?S (row_entries (rows M) (int r))"
      using csr_slice[OF r] row_range_nth[OF r] by (simp add: py_slice_map)
    finally show ?thesis by (simp add: case_prod_unfold)
  qed
  have "from_csr ?out
      = concat (map (\<lambda>r. map (\<lambda>k. ((int r, ?ind ! k), map (\<lambda>d. d ! k) ?dat))
                              [nat (?ptr ! r)..<nat (?ptr ! Suc r)])
                     [0..<length ?ptr - 1])"
    unfolding from_csr_def Let_def p1 p2 p3 ..
  also have "\<dots> = concat (map (\<lambda>r. map (\<lambda>(col, item). ((int r, col), item))
                                (map ?S (row_entries (rows M) (int r)))) [0..<length ?R])"
  proof -
    have "map (\<lambda>r. map (\<lambda>k. ((int r, ?ind ! k), map (\<lambda>d. d ! k) ?dat))
                              [nat (?ptr ! r)..<nat (?ptr ! Suc r)]) [0..<length ?ptr - 1]
        = map (\<lambda>r. map (\<lambda>(col, item). ((int r, col), item))
                                (map ?S (row_entries (rows M) (int r)))) [0..<length ?R]"
    proof (rule map_cong)
      show "[0..<length ?ptr - 1] = [0..<length ?R]" by (simp add: length_row_range)
    next
      fix r assume "r \<in> set [0..<length ?R]"
      then have "r < length ?R" by simp
      then show "map (\<lambda>k. ((int r, ?ind ! k), map (\<lambda>d. d ! k) ?dat))
                              [nat (?ptr ! r)..<nat (?ptr ! Suc r)]
          = map (\<lambda>(col, item). ((int r, col), item)) (map ?S (row_entries (rows M) (int r)))"
        by (rule row)
    qed
    then show ?thesis by (rule arg_cong)
  qed
  also have "\<dots> = concat (map (\<lambda>r. map (\<lambda>(col, item). ((r, col), item))
                                  (map ?S (row_entries (rows M) r)))
                (map int [0..<length ?R]))"
    by (simp add: comp_def)
  also have "map int [0..<length ?R] = ?R"
    by (simp add: row_range_def py_range_def)
  finally show ?thesis unfolding res .
qed

lemma set_items:
  "set (items M) = {((r, c), item) | r c item rd. (r, rd) \<in> set (rows M) \<and> (c, item) \<in> set rd}"
  by (force simp: items_def)

lemma csr_entries_iff_items:
  assumes dist: "distinct (map fst (rows M))"
  shows "(c, item) \<in> set (csr_entries M) \<longleftrightarrow> (\<exists>r\<ge>0. ((r, c), item) \<in> set (items M))"
proof
  assume "(c, item) \<in> set (csr_entries M)"
  then obtain r where r: "r \<in> set (row_range (rows M))" "(c, item) \<in> set (row_entries (rows M) r)"
    by (auto simp: csr_entries_def emitted_def)
  from r(2) obtain rd where rd: "map_of (rows M) r = Some rd" "(c, item) \<in> set rd"
    by (cases "map_of (rows M) r") (auto simp: row_entries_def)
  from rd(1) have "(r, rd) \<in> set (rows M)" by (rule map_of_SomeD)
  with rd(2) have "((r, c), item) \<in> set (items M)" unfolding set_items by blast
  moreover from r(1) have "0 \<le> r" by (simp add: row_range_def set_py_range)
  ultimately show "\<exists>r\<ge>0. ((r, c), item) \<in> set (items M)" by blast
next
  assume "\<exists>r\<ge>0. ((r, c), item) \<in> set (items M)"
  then obtain r rd where r: "0 \<le> r" "(r, rd) \<in> set (rows M)" "(c, item) \<in> set rd"
    unfolding set_items by blast
  from r(2) have "r \<in> set (map fst (rows M))" by force
  then have "r \<le> Max (set (map fst (rows M)))" by (intro Max_ge) auto
  with r(1) have "r \<in> set (row_range (rows M))" by (simp add: row_range_def set_py_range)
  moreover have "map_of (rows M) r = Some rd" using dist r(2) by (rule map_of_is_SomeI)
  then have "row_entries (rows M) r = rd" by (simp add: row_entries_def)
  ultimately show "(c, item) \<in> set (csr_entries M)"
    using r(3) by (auto simp: csr_entries_def emitted_def)
qed

lemma length_csr_entries_le: "length (csr_entries M) \<le> len M"
  unfolding csr_entries_def row_range_def len_def
  by (intro length_emitted_le distinct_py_range)

lemma csr_indptr_bounds:
  assumes "p \<in> set (csr_indptr M)"
  shows "0 \<le> p \<and> p \<le> int (len M)"
proof -
  from assms obtain i where i: "i < length (csr_indptr M)" "p = csr_indptr M ! i"
    by (auto simp: in_set_conv_nth)
  from i(1) have le: "i \<le> length (row_range (rows M))" by (simp add: length_row_range)
  have "p = int (length (emitted (rows M) (take i (row_range (rows M)))))"
    using csr_indptr_nth[OF le] i(2) by simp
  moreover have "length (emitted (rows M) (take i (row_range (rows M)))) \<le> length (csr_entries M)"
    by (simp add: csr_entries_def length_emitted_take)
  ultimately show ?thesis using length_csr_entries_le[of M] by simp
qed

lemma csr_indptr_exact:
  assumes "int32_exact N" and "int (len M) < 2 ^ 31"
  shows "\<forall>p\<in>set (csr_indptr M). np_store_int N int32 p = Inr p"
proof
  fix p assume "p \<in> set (csr_indptr M)"
  then have "0 \<le> p \<and> p \<le> int (len M)" by (rule csr_indptr_bounds)
  with assms(2) have "int32_range p" by (simp add: int32_range_def)
  with assms(1) show "np_store_int N int32 p = Inr p" by (simp add: int32_exact_def)
qed

lemma pointer_list_csr_indptr:
  "sorted (csr_indptr M) \<and> hd (csr_indptr M) = 0
   \<and> last (csr_indptr M) = int (length (csr_entries M))"
  using sorted_offsets[of 0 "map (\<lambda>r. length (row_entries (rows M) r)) (row_range (rows M))"]
    last_offsets[of 0 "map (\<lambda>r. length (row_entries (rows M) r)) (row_range (rows M))"]
  by (simp add: csr_indptr_def sum_row_lengths csr_entries_def)

lemma stored_unchanged_storable: "stored_unchanged N subs e \<Longrightarrow> storable N subs e"
  by (simp add: stored_unchanged_def storable_def)

lemma stored_unchanged_entry:
  assumes "stored_unchanged N subs e"
  shows "stored_entry N subs e = e"
proof -
  from assms have l: "length (snd e) = length subs"
    and v: "\<forall>j<length subs. np_store N (fst (subs ! j)) (elem_shape (subs ! j)) (snd e ! j)
              = Inr (snd e ! j)"
    and c: "np_store_int N int32 (fst e) = Inr (fst e)"
    by (simp_all add: stored_unchanged_def)
  have "map (\<lambda>j. projr (np_store N (fst (subs ! j)) (elem_shape (subs ! j)) (snd e ! j)))
          [0..<length (snd e)] = map (\<lambda>j. snd e ! j) [0..<length (snd e)]"
    using v l by (intro map_cong refl) simp
  then show ?thesis
    using c by (simp add: stored_entry_def map_nth prod_eq_iff)
qed

section \<open>Lemmas: the NumPy of the examples\<close>

lemma bit_length_le: "n < 2 ^ k \<Longrightarrow> bit_length n \<le> k"
proof (induction k arbitrary: n)
  case 0
  then show ?case by simp
next
  case (Suc k)
  show ?case
  proof (cases "n \<le> 0")
    case True
    then show ?thesis by simp
  next
    case False
    from Suc.prems have "n div 2 < 2 ^ k" by simp
    then have "bit_length (n div 2) \<le> k" by (rule Suc.IH)
    with False show ?thesis by (subst bit_length.simps) simp
  qed
qed

lemma float64_of_int_small:
  assumes "\<bar>v\<bar> < 2 ^ 53"
  shows "float64_of_int v = Inr v"
proof -
  from assms have "bit_length \<bar>v\<bar> \<le> 53" by (rule bit_length_le)
  then have e: "bit_length \<bar>v\<bar> - 53 = 0" by simp
  have "(2::int) ^ 53 \<le> 2 ^ 1024" by (rule power_increasing) simp_all
  with assms have lt: "\<not> (2::int) ^ 1024 \<le> \<bar>v\<bar>" by linarith
  have "sgn v * \<bar>v\<bar> = v" by (simp add: sgn_if)
  with lt show ?thesis
    unfolding float64_of_int_def Let_def e by simp
qed

lemma int32_exact_plain: "int32_exact plain_numpy"
  by (simp add: int32_exact_def plain_numpy_def)

lemma plain_store_small: "\<bar>v\<bar> < 2 ^ 53 \<Longrightarrow> np_store plain_numpy float64 sh v = Inr v"
  by (simp add: plain_numpy_def float64_of_int_small)

lemma plain_store_int: "int32_range c \<Longrightarrow> np_store_int plain_numpy int32 c = Inr c"
  by (simp add: plain_numpy_def)

section \<open>Lemmas: the loops of singular_impedance_rwg\<close>

lemma for_loop_acc:
  assumes "\<And>x s s'. x \<in> set xs \<Longrightarrow> body x s = Inr s' \<Longrightarrow> F s' = h x (F s)"
  shows "for_loop xs body s = Inr s' \<Longrightarrow> F s' = fold h xs (F s)"
  using assms
proof (induction xs arbitrary: s)
  case Nil
  then show ?case by simp
next
  case (Cons x xs)
  from Cons.prems(1) obtain s1 where s1: "body x s = Inr s1" "for_loop xs body s1 = Inr s'"
    by (auto split: sum.splits)
  have "F s1 = h x (F s)" using Cons.prems(2)[OF _ s1(1)] by simp
  moreover have "F s' = fold h xs (F s1)"
    using s1(2) Cons.prems(2) by (intro Cons.IH) auto
  ultimately show ?case by simp
qed

lemma for_loop_inv:
  assumes "\<And>x s s'. x \<in> set xs \<Longrightarrow> P s \<Longrightarrow> body x s = Inr s' \<Longrightarrow> P s'"
  shows "P s \<Longrightarrow> for_loop xs body s = Inr s' \<Longrightarrow> P s'"
  using assms
proof (induction xs arbitrary: s)
  case Nil
  then show ?case by simp
next
  case (Cons x xs)
  from Cons.prems(2) obtain s1 where s1: "body x s = Inr s1" "for_loop xs body s1 = Inr s'"
    by (auto split: sum.splits)
  have "P s1" using Cons.prems(3)[OF _ Cons.prems(1) s1(1)] by simp
  then show ?case using s1(2) Cons.prems(3) by (intro Cons.IH[of s1]) auto
qed

lemma for_loop_err:
  assumes "\<And>x s e. x \<in> set xs \<Longrightarrow> body x s = Inl e \<Longrightarrow> Q e"
  shows "for_loop xs body s = Inl e \<Longrightarrow> Q e"
  using assms
proof (induction xs arbitrary: s)
  case Nil
  then show ?case by simp
next
  case (Cons x xs)
  show ?case
  proof (cases "body x s")
    case (Inl e')
    with Cons.prems(1) have "e' = e" by simp
    with Inl Cons.prems(2) show ?thesis by auto
  next
    case (Inr s1)
    with Cons.prems(1) have "for_loop xs body s1 = Inl e" by simp
    then show ?thesis using Cons.prems(2) by (intro Cons.IH[of s1]) auto
  qed
qed

lemma fold_union: "fold (\<lambda>x K. K \<union> G x) xs K = K \<union> (\<Union>x\<in>set xs. G x)"
  by (induction xs arbitrary: K) auto

lemma fold_insert: "fold (\<lambda>x K. insert (g x) K) xs K = K \<union> g ` set xs"
  by (induction xs arbitrary: K) auto

lemma fold_append_events: "fold (\<lambda>x tr. tr @ ev x) xs tr = tr @ concat (map ev xs)"
  by (induction xs arbitrary: tr) auto

lemma finite_sharing_triangles: "finite (sharing_triangles m tri)"
proof -
  have "finite S \<Longrightarrow> finite (fold (\<lambda>node S. S \<union> set (triangles_sharing_nodes m node)) tri S)" for S
    by (induction tri arbitrary: S) auto
  then show ?thesis by (simp add: sharing_triangles_def)
qed

lemma sharing_triangles_iff:
  "q \<in> sharing_triangles m tri \<longleftrightarrow> (\<exists>node\<in>set tri. q \<in> set (triangles_sharing_nodes m node))"
  by (simp add: sharing_triangles_def fold_union)

lemma integrate_pair_Inr:
  assumes "integrate_pair X b normals p q (st, tr) = Inr (st', tr')"
  shows "\<exists>res0 res1 res2 res3.
      T_EFIE st' = setitem (p, q) [res1, res0] (T_EFIE st)
    \<and> T_MFIE st' = (if q \<noteq> p then setitem (p, q) [res3] (T_MFIE st) else T_MFIE st)
    \<and> N_MFIE st' = (if q \<noteq> p then setitem (p, q) [res2] (N_MFIE st) else N_MFIE st)
    \<and> tr' = tr @ pair_events p q"
  using assms
  by (auto simp: integrate_pair_def raising_def pair_events_def Let_def
           split: sum.splits option.splits prod.splits if_splits)
     blast+

lemma has_key_setitem:
  "has_key (setitem index item M) index' \<longleftrightarrow> index' = index \<or> has_key M index'"
  by (simp add: has_key_def getitem_setitem)

lemma has_key_init: "\<not> has_key (MultiSparse_init subs) index"
  by (simp add: has_key_def getitem_def MultiSparse_init_def)

lemma getitem_no_key: "\<not> has_key M index \<Longrightarrow> getitem M index = Inl KeyError"
  by (auto simp: has_key_def getitem_def split: option.splits sum.splits)

lemma integrate_pair_keys:
  assumes "integrate_pair X b normals p q s = Inr s'"
  shows "{i. has_key (T_EFIE (fst s')) i} = insert (p, q) {i. has_key (T_EFIE (fst s)) i}"
    and "{i. has_key (T_MFIE (fst s')) i}
          = (if q \<noteq> p then insert (p, q) {i. has_key (T_MFIE (fst s)) i}
             else {i. has_key (T_MFIE (fst s)) i})"
    and "{i. has_key (N_MFIE (fst s')) i}
          = (if q \<noteq> p then insert (p, q) {i. has_key (N_MFIE (fst s)) i}
             else {i. has_key (N_MFIE (fst s)) i})"
    and "snd s' = snd s @ pair_events p q"
proof -
  obtain st tr st' tr' where s: "s = (st, tr)" "s' = (st', tr')" by (cases s; cases s')
  from integrate_pair_Inr[OF assms[unfolded s]] obtain res0 res1 res2 res3 where
    r: "T_EFIE st' = setitem (p, q) [res1, res0] (T_EFIE st)"
       "T_MFIE st' = (if q \<noteq> p then setitem (p, q) [res3] (T_MFIE st) else T_MFIE st)"
       "N_MFIE st' = (if q \<noteq> p then setitem (p, q) [res2] (N_MFIE st) else N_MFIE st)"
       "tr' = tr @ pair_events p q"
    by blast
  show "{i. has_key (T_EFIE (fst s')) i} = insert (p, q) {i. has_key (T_EFIE (fst s)) i}"
    by (auto simp: s r has_key_setitem)
  show "{i. has_key (T_MFIE (fst s')) i}
          = (if q \<noteq> p then insert (p, q) {i. has_key (T_MFIE (fst s)) i}
             else {i. has_key (T_MFIE (fst s)) i})"
    by (auto simp: s r has_key_setitem)
  show "{i. has_key (N_MFIE (fst s')) i}
          = (if q \<noteq> p then insert (p, q) {i. has_key (N_MFIE (fst s)) i}
             else {i. has_key (N_MFIE (fst s)) i})"
    by (auto simp: s r has_key_setitem)
  show "snd s' = snd s @ pair_events p q" by (simp add: s r)
qed

lemma fold_insert_if:
  "fold (\<lambda>q K. if q \<noteq> p then insert (g q) K else K) xs K = K \<union> g ` (set xs - {p})"
  by (induction xs arbitrary: K) auto

lemma np_getitem_in_range:
  "0 \<le> p \<Longrightarrow> p < int (length xs) \<Longrightarrow> np_getitem xs p = Inr (xs ! nat p)"
  by (simp add: np_getitem_def Let_def)

lemma integrate_observer_effect:
  assumes ok: "set_iter_ok X"
    and p: "0 \<le> p" "p < int (length (polygons (mesh b)))"
    and run: "integrate_observer X b normals p s = Inr s'"
  shows "{i. has_key (T_EFIE (fst s')) i}
           = {i. has_key (T_EFIE (fst s)) i} \<union> {(p, q) | q. touching b p q}"
    and "{i. has_key (T_MFIE (fst s')) i}
           = {i. has_key (T_MFIE (fst s)) i} \<union> {(p, q) | q. touching b p q \<and> q \<noteq> p}"
    and "{i. has_key (N_MFIE (fst s')) i}
           = {i. has_key (N_MFIE (fst s)) i} \<union> {(p, q) | q. touching b p q \<and> q \<noteq> p}"
    and "snd s' = snd s @ concat (map (pair_events p)
           (set_iter X (sharing_triangles (mesh b) (polygons (mesh b) ! nat p))))"
proof -
  let ?S = "sharing_triangles (mesh b) (polygons (mesh b) ! nat p)"
  let ?Q = "set_iter X ?S"
  have Q: "set ?Q = ?S"
    using ok finite_sharing_triangles[of "mesh b" "polygons (mesh b) ! nat p"]
    by (simp add: set_iter_ok_def)
  have t: "touching b p q \<longleftrightarrow> q \<in> ?S" for q using p by (simp add: touching_def)
  have loop: "for_loop ?Q (integrate_pair X b normals p) s = Inr s'"
    using run p by (cases s) (simp add: integrate_observer_def raising_def np_getitem_in_range)
  have "{i. has_key (T_EFIE (fst s')) i}
      = fold (\<lambda>q K. insert (p, q) K) ?Q {i. has_key (T_EFIE (fst s)) i}"
    using loop by (rule for_loop_acc[rotated]) (rule integrate_pair_keys(1))
  then show "{i. has_key (T_EFIE (fst s')) i}
           = {i. has_key (T_EFIE (fst s)) i} \<union> {(p, q) | q. touching b p q}"
    by (auto simp: fold_insert Q t)
  have "{i. has_key (T_MFIE (fst s')) i}
      = fold (\<lambda>q K. if q \<noteq> p then insert (p, q) K else K) ?Q {i. has_key (T_MFIE (fst s)) i}"
    using loop by (rule for_loop_acc[rotated]) (rule integrate_pair_keys(2))
  then show "{i. has_key (T_MFIE (fst s')) i}
           = {i. has_key (T_MFIE (fst s)) i} \<union> {(p, q) | q. touching b p q \<and> q \<noteq> p}"
    by (auto simp: fold_insert_if Q t)
  have "{i. has_key (N_MFIE (fst s')) i}
      = fold (\<lambda>q K. if q \<noteq> p then insert (p, q) K else K) ?Q {i. has_key (N_MFIE (fst s)) i}"
    using loop by (rule for_loop_acc[rotated]) (rule integrate_pair_keys(3))
  then show "{i. has_key (N_MFIE (fst s')) i}
           = {i. has_key (N_MFIE (fst s)) i} \<union> {(p, q) | q. touching b p q \<and> q \<noteq> p}"
    by (auto simp: fold_insert_if Q t)
  have "snd s' = fold (\<lambda>q tr. tr @ pair_events p q) ?Q (snd s)"
    using loop by (rule for_loop_acc[rotated]) (rule integrate_pair_keys(4))
  then show "snd s' = snd s @ concat (map (pair_events p) ?Q)"
    by (simp add: fold_append_events)
qed

lemma singular_loop_effect:
  assumes ok: "set_iter_ok X"
    and run: "singular_loop X b n normals tr0 = Inr (st, tr)"
  shows "{i. has_key (T_EFIE st) i} = {(p, q). touching b p q}"
    and "{i. has_key (T_MFIE st) i} = {(p, q). touching b p q \<and> q \<noteq> p}"
    and "{i. has_key (N_MFIE st) i} = {(p, q). touching b p q \<and> q \<noteq> p}"
    and "tr = tr0 @ loop_events X b"
proof -
  let ?P = "py_range (int (length (polygons (mesh b))))"
  let ?s0 = "(new_singular_terms n :: 'c singular_terms, tr0)"
  have loop: "for_loop ?P (integrate_observer X b normals) ?s0 = Inr (st, tr)"
    using run by (simp add: singular_loop_def)
  have P: "p \<in> set ?P \<Longrightarrow> 0 \<le> p \<and> p < int (length (polygons (mesh b)))" for p
    by (simp add: set_py_range)
  have un: "(\<Union>p\<in>set ?P. {(p, q) | q. R p q \<and> touching b p q}) = {(p, q). R p q \<and> touching b p q}"
    for R :: "int \<Rightarrow> int \<Rightarrow> bool"
    by (auto simp: set_py_range touching_def)
  have "{i. has_key (T_EFIE (fst (st, tr))) i}
      = fold (\<lambda>p K. K \<union> {(p, q) | q. touching b p q}) ?P {i. has_key (T_EFIE (fst ?s0)) i}"
    using loop
  proof (rule for_loop_acc[rotated])
    fix p s s' assume "p \<in> set ?P" "integrate_observer X b normals p s = Inr s'"
    then show "{i. has_key (T_EFIE (fst s')) i}
        = {i. has_key (T_EFIE (fst s)) i} \<union> {(p, q) | q. touching b p q}"
      using integrate_observer_effect(1)[OF ok] P by blast
  qed
  then show "{i. has_key (T_EFIE st) i} = {(p, q). touching b p q}"
    using un[of "\<lambda>p q. True"] by (simp add: fold_union new_singular_terms_def has_key_init)
  have "{i. has_key (T_MFIE (fst (st, tr))) i}
      = fold (\<lambda>p K. K \<union> {(p, q) | q. touching b p q \<and> q \<noteq> p}) ?P
          {i. has_key (T_MFIE (fst ?s0)) i}"
    using loop
  proof (rule for_loop_acc[rotated])
    fix p s s' assume "p \<in> set ?P" "integrate_observer X b normals p s = Inr s'"
    then show "{i. has_key (T_MFIE (fst s')) i}
        = {i. has_key (T_MFIE (fst s)) i} \<union> {(p, q) | q. touching b p q \<and> q \<noteq> p}"
      using integrate_observer_effect(2)[OF ok] P by blast
  qed
  then show "{i. has_key (T_MFIE st) i} = {(p, q). touching b p q \<and> q \<noteq> p}"
    using un[of "\<lambda>p q. q \<noteq> p"]
    by (simp add: fold_union new_singular_terms_def has_key_init conj_commute)
  have "{i. has_key (N_MFIE (fst (st, tr))) i}
      = fold (\<lambda>p K. K \<union> {(p, q) | q. touching b p q \<and> q \<noteq> p}) ?P
          {i. has_key (N_MFIE (fst ?s0)) i}"
    using loop
  proof (rule for_loop_acc[rotated])
    fix p s s' assume "p \<in> set ?P" "integrate_observer X b normals p s = Inr s'"
    then show "{i. has_key (N_MFIE (fst s')) i}
        = {i. has_key (N_MFIE (fst s)) i} \<union> {(p, q) | q. touching b p q \<and> q \<noteq> p}"
      using integrate_observer_effect(3)[OF ok] P by blast
  qed
  then show "{i. has_key (N_MFIE st) i} = {(p, q). touching b p q \<and> q \<noteq> p}"
    using un[of "\<lambda>p q. q \<noteq> p"]
    by (simp add: fold_union new_singular_terms_def has_key_init conj_commute)
  have "snd (st, tr)
      = fold (\<lambda>p t. t @ concat (map (pair_events p)
           (set_iter X (sharing_triangles (mesh b) (polygons (mesh b) ! nat p))))) ?P (snd ?s0)"
    using loop
  proof (rule for_loop_acc[rotated])
    fix p s s' assume "p \<in> set ?P" "integrate_observer X b normals p s = Inr s'"
    then show "snd s' = snd s @ concat (map (pair_events p)
           (set_iter X (sharing_triangles (mesh b) (polygons (mesh b) ! nat p))))"
      using integrate_observer_effect(4)[OF ok] P by blast
  qed
  then show "tr = tr0 @ loop_events X b"
    by (simp add: fold_append_events loop_events_def)
qed

lemma distinct_concat_map:
  assumes "distinct xs"
    and "\<And>x. x \<in> set xs \<Longrightarrow> distinct (f x)"
    and "\<And>x y. x \<in> set xs \<Longrightarrow> y \<in> set xs \<Longrightarrow> x \<noteq> y \<Longrightarrow> set (f x) \<inter> set (f y) = {}"
  shows "distinct (concat (map f xs))"
  using assms
proof (induction xs)
  case Nil
  show ?case by simp
next
  case (Cons x xs)
  have "distinct (concat (map f xs))"
    using Cons.prems by (intro Cons.IH) auto
  moreover have "distinct (f x)" using Cons.prems(2) by simp
  moreover have "set (f x) \<inter> set (f y) = {}" if "y \<in> set xs" for y
    using that Cons.prems(1) Cons.prems(3)[of x y] by auto
  ultimately show ?case by auto
qed

lemma set_pair_events:
  "set (pair_events p q) =
     {FaceIntegral p q, SetItem ''T_EFIE'' p q}
       \<union> (if q \<noteq> p then {SetItem ''T_MFIE'' p q, SetItem ''N_MFIE'' p q} else {})"
  by (auto simp: pair_events_def)

lemma distinct_pair_events: "distinct (pair_events p q)"
  by (simp add: pair_events_def)

lemma set_loop_events:
  assumes "set_iter_ok X"
  shows "set (loop_events X b) = (\<Union>(p, q)\<in>{(p, q). touching b p q}. set (pair_events p q))"
proof -
  have Q: "set (set_iter X (sharing_triangles (mesh b) tri)) = sharing_triangles (mesh b) tri" for tri
    using assms finite_sharing_triangles[of "mesh b" tri] by (simp add: set_iter_ok_def)
  show ?thesis
    unfolding loop_events_def
    by (auto simp: Q set_py_range touching_def)
qed

lemma distinct_loop_events:
  assumes "set_iter_ok X"
  shows "distinct (loop_events X b)"
  unfolding loop_events_def
proof (rule distinct_concat_map)
  show "distinct (py_range (int (length (polygons (mesh b)))))" by (rule distinct_py_range)
next
  fix p
  let ?Q = "set_iter X (sharing_triangles (mesh b) (polygons (mesh b) ! nat p))"
  have "distinct ?Q"
    using assms finite_sharing_triangles[of "mesh b" "polygons (mesh b) ! nat p"]
    by (simp add: set_iter_ok_def)
  then show "distinct (concat (map (pair_events p) ?Q))"
    by (rule distinct_concat_map) (auto simp: distinct_pair_events set_pair_events)
next
  fix p p' :: int
  assume "p \<noteq> p'"
  then show "set (concat (map (pair_events p)
                 (set_iter X (sharing_triangles (mesh b) (polygons (mesh b) ! nat p)))))
           \<inter> set (concat (map (pair_events p')
                 (set_iter X (sharing_triangles (mesh b) (polygons (mesh b) ! nat p'))))) = {}"
    by (auto simp: set_pair_events split: if_splits)
qed

lemma SetItem_in_loop_events:
  assumes "set_iter_ok X"
  shows "SetItem ''T_EFIE'' p q \<in> set (loop_events X b) \<longleftrightarrow> touching b p q"
    and "SetItem ''T_MFIE'' p q \<in> set (loop_events X b) \<longleftrightarrow> touching b p q \<and> q \<noteq> p"
    and "SetItem ''N_MFIE'' p q \<in> set (loop_events X b) \<longleftrightarrow> touching b p q \<and> q \<noteq> p"
    and "FaceIntegral p q \<in> set (loop_events X b) \<longleftrightarrow> touching b p q"
  unfolding set_loop_events[OF assms]
  by (auto simp: set_pair_events split: if_splits)

lemma items_setitem_subset:
  "set (items (setitem index item M)) \<subseteq> insert (index, item) (set (items M))"
proof -
  obtain row col where index: "index = (row, col)" by (cases index)
  show ?thesis
  proof (cases "map_of (rows M) row")
    case None
    then have r: "set (rows (setitem (row, col) item M))
        \<subseteq> insert (row, [(col, item)]) (set (rows M))"
      using set_dict_set by (simp add: setitem_def)
    show ?thesis unfolding set_items index using r by fastforce
  next
    case (Some rd)
    then have rd: "(row, rd) \<in> set (rows M)" by (rule map_of_SomeD)
    from Some have r: "set (rows (setitem (row, col) item M))
        \<subseteq> insert (row, dict_set col item rd) (set (rows M))"
      using set_dict_set by (simp add: setitem_def)
    have c: "set (dict_set col item rd) \<subseteq> insert (col, item) (set rd)" by (rule set_dict_set)
    show ?thesis unfolding set_items index using r c rd by fastforce
  qed
qed

lemma items_init: "items (MultiSparse_init subs) = []"
  by (simp add: items_def MultiSparse_init_def)

lemma terms_inv_new: "terms_inv n (new_singular_terms n)"
  by (simp add: terms_inv_def new_singular_terms_def items_init) (simp add: MultiSparse_init_def)

lemma terms_inv_pair:
  assumes "terms_inv n (fst s)" and "integrate_pair X b normals p q s = Inr s'"
  shows "terms_inv n (fst s')"
proof -
  obtain st tr st' tr' where s: "s = (st, tr)" "s' = (st', tr')" by (cases s; cases s')
  from integrate_pair_Inr[OF assms(2)[unfolded s]] obtain res0 res1 res2 res3 where
    r: "T_EFIE st' = setitem (p, q) [res1, res0] (T_EFIE st)"
       "T_MFIE st' = (if q \<noteq> p then setitem (p, q) [res3] (T_MFIE st) else T_MFIE st)"
       "N_MFIE st' = (if q \<noteq> p then setitem (p, q) [res2] (N_MFIE st) else N_MFIE st)"
    by blast
  from assms(1) have i: "terms_inv n st" by (simp add: s)
  have e: "\<forall>(index, item)\<in>set (items (T_EFIE st')). length item = 2"
    using i items_setitem_subset[of "(p, q)" "[res1, res0]" "T_EFIE st"]
    unfolding r terms_inv_def by fastforce
  have tm: "\<forall>(index, item)\<in>set (items (T_MFIE st')). length item = 1"
    using i items_setitem_subset[of "(p, q)" "[res3]" "T_MFIE st"]
    unfolding r terms_inv_def by (cases "q \<noteq> p") fastforce+
  have nm: "\<forall>(index, item)\<in>set (items (N_MFIE st')). length item = 1"
    using i items_setitem_subset[of "(p, q)" "[res2]" "N_MFIE st"]
    unfolding r terms_inv_def by (cases "q \<noteq> p") fastforce+
  have "subarrays (T_EFIE st') = subarrays (T_EFIE st)"
       "subarrays (T_MFIE st') = subarrays (T_MFIE st)"
       "subarrays (N_MFIE st') = subarrays (N_MFIE st)"
    by (simp_all add: r subarrays_setitem)
  with i e tm nm show ?thesis by (simp add: s terms_inv_def)
qed

lemma terms_inv_observer:
  assumes "terms_inv n (fst s)" and "integrate_observer X b normals p s = Inr s'"
  shows "terms_inv n (fst s')"
proof -
  from assms(2) obtain Q where "for_loop Q (integrate_pair X b normals p) s = Inr s'"
    by (cases s) (auto simp: integrate_observer_def raising_def split: sum.splits)
  with assms(1) show ?thesis
    by (rule for_loop_inv[where P = "\<lambda>s. terms_inv n (fst s)", rotated]) (rule terms_inv_pair)
qed

lemma terms_inv_loop:
  assumes "singular_loop X b n normals tr0 = Inr (st, tr)"
  shows "terms_inv n st"
proof -
  have loop: "for_loop (py_range (int (length (polygons (mesh b)))))
      (integrate_observer X b normals) (new_singular_terms n, tr0) = Inr (st, tr)"
    using assms by (simp add: singular_loop_def)
  have "terms_inv n (fst (st, tr))"
  proof (rule for_loop_inv[where P = "\<lambda>s. terms_inv n (fst s)", OF _ _ loop])
    show "terms_inv n (fst (new_singular_terms n, tr0))" by (simp add: terms_inv_new)
  next
    fix p s s'
    assume "terms_inv n (fst s)" "integrate_observer X b normals p s = Inr s'"
    then show "terms_inv n (fst s')" by (rule terms_inv_observer)
  qed
  then show ?thesis by simp
qed

lemma to_csr_shaped:
  assumes run: "to_csr N F_order M = Inr out"
    and subs: "subarrays M = map (\<lambda>sh. (float64, Some sh)) shapes"
  shows "csr_shaped shapes out"
proof -
  from run have out: "out = csr_result N F_order M" by (simp add: to_csr_iff)
  show ?thesis
    unfolding out csr_shaped_def csr_result_def using length_csr_entries_le[of M]
    by (simp add: subs nth_append data_array_of_def index_array_of_def Let_def elem_shape_def)
qed

lemma np_setitem_error:
  "np_setitem N a i v = Inl e \<Longrightarrow> e = IndexError \<or> (\<exists>ne. e = NumPyError ne)"
  by (auto simp: np_setitem_def split: if_splits sum.splits)

lemma np_setitem_int_error:
  "np_setitem_int N a i c = Inl e \<Longrightarrow> e = IndexError \<or> (\<exists>ne. e = NumPyError ne)"
  by (auto simp: np_setitem_int_def split: if_splits sum.splits)

lemma store_sub_error:
  "store_sub N k x arrays = Inl e \<Longrightarrow> e = IndexError \<or> (\<exists>ne. e = NumPyError ne)"
  by (cases x) (auto simp: store_sub_def dest: np_setitem_error split: if_splits sum.splits)

lemma store_item_error:
  "store_item N x st = Inl e \<Longrightarrow> e = IndexError \<or> (\<exists>ne. e = NumPyError ne)"
proof -
  assume a: "store_item N x st = Inl e"
  obtain col item where x: "x = (col, item)" by (cases x)
  show ?thesis
  proof (cases "for_loop (enumerate 0 item) (store_sub N (data_index st)) (data_arrays st)")
    case (Inl e')
    then have "e' = IndexError \<or> (\<exists>ne. e' = NumPyError ne)"
      by (rule for_loop_err[rotated]) (rule store_sub_error)
    with a Inl show ?thesis by (simp add: store_item_def x)
  next
    case (Inr arrays)
    with a show ?thesis
      by (auto simp: store_item_def x dest: np_setitem_int_error split: sum.splits)
  qed
qed

lemma store_row_error:
  "store_row N rws row st = Inl e \<Longrightarrow> e = IndexError \<or> (\<exists>ne. e = NumPyError ne)"
proof -
  assume a: "store_row N rws row st = Inl e"
  then obtain rd where "for_loop rd (store_item N) st = Inl e"
    by (auto simp: store_row_def split: option.splits sum.splits)
  then show ?thesis by (rule for_loop_err[rotated]) (rule store_item_error)
qed

lemma to_csr_error:
  assumes "to_csr N ord M = Inl e"
  shows "e = ValueError ''max() arg is an empty sequence'' \<or> e = IndexError
         \<or> (\<exists>ne. e = NumPyError ne)"
proof (cases "rows M")
  case Nil
  with assms show ?thesis by (simp add: to_csr_def)
next
  case (Cons r rs)
  with assms consider
      R s0 where "for_loop R (store_row N (rows M)) s0 = Inl e"
    | xs where "np_store_ints N int32 xs = Inl e"
    by (auto simp: to_csr_def Let_def np_array_def split: sum.splits)
  then show ?thesis
  proof cases
    case 1
    then have "e = IndexError \<or> (\<exists>ne. e = NumPyError ne)"
      by (rule for_loop_err[rotated]) (rule store_row_error)
    then show ?thesis by blast
  next
    case 2
    then show ?thesis using np_store_ints_error by blast
  qed
qed

lemma np_take_error: "np_take xs idx = Inl e \<Longrightarrow> e = IndexError"
  by (induction idx) (auto simp: np_getitem_def Let_def split: sum.splits if_splits)

lemma np_getitem_error: "np_getitem xs i = Inl e \<Longrightarrow> e = IndexError"
  by (auto simp: np_getitem_def Let_def split: if_splits)

lemma integrate_pair_error:
  assumes "integrate_pair X b normals p q s = Inl e"
  shows "fst e = IndexError \<or> fst e = QuadratureFailure"
  using assms
  by (cases s)
     (auto simp: integrate_pair_def raising_def Let_def
           dest!: np_take_error np_getitem_error
           split: sum.splits option.splits prod.splits if_splits)

lemma integrate_observer_error:
  assumes "integrate_observer X b normals p s = Inl e"
  shows "fst e = IndexError \<or> fst e = QuadratureFailure"
proof -
  obtain st tr where s: "s = (st, tr)" by (cases s)
  show ?thesis
  proof (cases "np_getitem (polygons (mesh b)) p")
    case (Inl e')
    with assms show ?thesis
      by (auto simp: integrate_observer_def raising_def s dest: np_getitem_error)
  next
    case (Inr tri)
    with assms have "for_loop (set_iter X (sharing_triangles (mesh b) tri))
         (integrate_pair X b normals p) (st, tr) = Inl e"
      by (simp add: integrate_observer_def raising_def s)
    then show ?thesis by (rule for_loop_err[rotated]) (rule integrate_pair_error)
  qed
qed

lemma singular_loop_error:
  assumes "singular_loop X b n normals tr0 = Inl e"
  shows "fst e = IndexError \<or> fst e = QuadratureFailure"
proof -
  from assms have "for_loop (py_range (int (length (polygons (mesh b)))))
      (integrate_observer X b normals) (new_singular_terms n, tr0) = Inl e"
    by (simp add: singular_loop_def)
  then show ?thesis by (rule for_loop_err[rotated]) (rule integrate_observer_error)
qed

lemma finalize_error:
  assumes "finalize N st = Inl e"
  shows "e = ValueError ''max() arg is an empty sequence'' \<or> e = IndexError
         \<or> (\<exists>ne. e = NumPyError ne)"
proof -
  from assms obtain M where "to_csr N F_order M = Inl e"
    by (auto simp: finalize_def split: sum.splits)
  then show ?thesis by (rule to_csr_error)
qed

lemma finalize_Inr:
  assumes "finalize N st = Inr d"
  shows "\<exists>te tm nm. to_csr N F_order (T_EFIE st) = Inr te \<and> to_csr N F_order (T_MFIE st) = Inr tm
           \<and> to_csr N F_order (N_MFIE st) = Inr nm
           \<and> d = [(''T_EFIE'', te), (''T_MFIE'', tm), (''N_MFIE'', nm)]"
  using assms by (auto simp: finalize_def split: sum.splits)

lemma finalize_shaped:
  assumes inv: "terms_inv n st" and fin: "finalize N st = Inr d"
  shows "bundle_shaped n d"
proof -
  from finalize_Inr[OF fin] obtain te tm nm where
    r: "to_csr N F_order (T_EFIE st) = Inr te" "to_csr N F_order (T_MFIE st) = Inr tm"
       "to_csr N F_order (N_MFIE st) = Inr nm"
       "d = [(''T_EFIE'', te), (''T_MFIE'', tm), (''N_MFIE'', nm)]"
    by blast
  have 1: "csr_shaped [[n], [n, 3, 3]] te"
    using r(1) inv by (intro to_csr_shaped[of N "T_EFIE st"]) (auto simp: terms_inv_def)
  have 2: "csr_shaped [[n, 3, 3]] tm"
    using r(2) inv by (intro to_csr_shaped[of N "T_MFIE st"]) (auto simp: terms_inv_def)
  have 3: "csr_shaped [[n, 3, 3]] nm"
    using r(3) inv by (intro to_csr_shaped[of N "N_MFIE st"]) (auto simp: terms_inv_def)
  from 1 2 3 show ?thesis by (simp add: bundle_shaped_def r(4))
qed

lemma rwg_hit:
  assumes "is_LinearTriangleBasis b"
    and "cached_singular_terms \<sigma> (unique_id_of X b n tol normals) = Some r"
  shows "singular_impedance_rwg X b n tol normals \<sigma>
     = (Inr r, \<sigma>\<lparr>trace := trace \<sigma> @ [CacheLookup (unique_id_of X b n tol normals)]\<rparr>)"
  using assms by (simp add: singular_impedance_rwg_def)

lemma rwg_miss:
  assumes rwg: "is_LinearTriangleBasis b"
    and miss: "cached_singular_terms \<sigma> (unique_id_of X b n tol normals) = None"
    and call: "singular_impedance_rwg X b n tol normals \<sigma> = (res, \<sigma>')"
  shows "(\<exists>e tr. res = Inl e
            \<and> (e = IndexError \<or> e = QuadratureFailure
                 \<or> e = ValueError ''max() arg is an empty sequence''
                 \<or> (\<exists>ne. e = NumPyError ne))
            \<and> \<sigma>' = \<sigma>\<lparr>trace := tr\<rparr>)
       \<or> (\<exists>d tr. res = Inr (length (heap \<sigma>)) \<and> bundle_shaped n d
            \<and> \<sigma>' = \<sigma>\<lparr>cached_singular_terms :=
                        (cached_singular_terms \<sigma>)(unique_id_of X b n tol normals \<mapsto> length (heap \<sigma>)),
                      heap := heap \<sigma> @ [d],
                      trace := tr @ [CacheStore (unique_id_of X b n tol normals)]\<rparr>)"
proof -
  let ?k = "unique_id_of X b n tol normals"
  let ?tr0 = "trace \<sigma> @ [CacheLookup ?k, LogInfo]"
  show ?thesis
  proof (cases "singular_loop X b n normals ?tr0")
    case (Inl et)
    obtain e tr where et: "et = (e, tr)" by (cases et)
    from singular_loop_error[OF Inl] have "e = IndexError \<or> e = QuadratureFailure"
      by (simp add: et)
    moreover have "res = Inl e" "\<sigma>' = \<sigma>\<lparr>trace := tr\<rparr>"
      using call rwg miss Inl by (simp_all add: singular_impedance_rwg_def et)
    ultimately show ?thesis by blast
  next
    case (Inr s)
    obtain st tr where s: "s = (st, tr)" by (cases s)
    have inv: "terms_inv n st" using Inr[unfolded s] by (rule terms_inv_loop)
    show ?thesis
    proof (cases "finalize (numpy X) st")
      case (Inl e)
      from finalize_error[OF Inl]
      have "e = ValueError ''max() arg is an empty sequence'' \<or> e = IndexError
            \<or> (\<exists>ne. e = NumPyError ne)" .
      moreover have "res = Inl e" "\<sigma>' = \<sigma>\<lparr>trace := tr\<rparr>"
        using call rwg miss Inr Inl by (simp_all add: singular_impedance_rwg_def s)
      ultimately show ?thesis by blast
    next
      case (Inr d)
      have "bundle_shaped n d" using inv Inr by (rule finalize_shaped)
      moreover have "res = Inr (length (heap \<sigma>))"
        "\<sigma>' = \<sigma>\<lparr>cached_singular_terms := (cached_singular_terms \<sigma>)(?k \<mapsto> length (heap \<sigma>)),
                  heap := heap \<sigma> @ [d], trace := tr @ [CacheStore ?k]\<rparr>"
        using call rwg miss \<open>singular_loop X b n normals ?tr0 = Inr s\<close> Inr
        by (simp_all add: singular_impedance_rwg_def s Let_def)
      ultimately show ?thesis by blast
    qed
  qed
qed

lemma not_rwg_Inl:
  "\<not> is_LinearTriangleBasis b \<Longrightarrow> \<exists>e. fst (singular_impedance_rwg X b n tol normals \<sigma>) = Inl e"
  by (simp add: singular_impedance_rwg_def)

lemma key_num_terms_unique_id: "key_num_terms (unique_id_of X b n tol normals) = n"
  by (simp add: key_num_terms_def unique_id_of_def)

lemma cache_inv_trace: "cache_inv (\<sigma>\<lparr>trace := tr\<rparr>) = cache_inv \<sigma>"
  by (simp add: cache_inv_def)

lemma cache_inv_store:
  assumes inv: "cache_inv \<sigma>" and d: "bundle_shaped (key_num_terms k) d"
  shows "cache_inv (\<sigma>\<lparr>cached_singular_terms := (cached_singular_terms \<sigma>)(k \<mapsto> length (heap \<sigma>)),
                      heap := heap \<sigma> @ [d], trace := tr\<rparr>)"
proof -
  have old: "r < length (heap \<sigma>) \<and> bundle_shaped (key_num_terms k') (heap \<sigma> ! r)"
    if "cached_singular_terms \<sigma> k' = Some r" for k' r
    using inv that unfolding cache_inv_def by blast
  have inj: "k1 = k2"
    if "cached_singular_terms \<sigma> k1 = Some r" "cached_singular_terms \<sigma> k2 = Some r" for k1 k2 r
    using inv that unfolding cache_inv_def by blast
  show ?thesis
    unfolding cache_inv_def
  proof (intro conjI allI impI)
    fix k' r
    assume a: "cached_singular_terms (\<sigma>\<lparr>cached_singular_terms :=
        (cached_singular_terms \<sigma>)(k \<mapsto> length (heap \<sigma>)), heap := heap \<sigma> @ [d], trace := tr\<rparr>) k'
        = Some r"
    show "r < length (heap (\<sigma>\<lparr>cached_singular_terms :=
        (cached_singular_terms \<sigma>)(k \<mapsto> length (heap \<sigma>)), heap := heap \<sigma> @ [d], trace := tr\<rparr>))"
      using a old[of k' r] by (cases "k' = k") auto
    show "bundle_shaped (key_num_terms k') (heap (\<sigma>\<lparr>cached_singular_terms :=
        (cached_singular_terms \<sigma>)(k \<mapsto> length (heap \<sigma>)), heap := heap \<sigma> @ [d], trace := tr\<rparr>) ! r)"
      using a old[of k' r] d by (cases "k' = k") (auto simp: nth_append)
  next
    fix k1 k2 r
    assume a: "cached_singular_terms (\<sigma>\<lparr>cached_singular_terms :=
        (cached_singular_terms \<sigma>)(k \<mapsto> length (heap \<sigma>)), heap := heap \<sigma> @ [d], trace := tr\<rparr>) k1
        = Some r \<and>
        cached_singular_terms (\<sigma>\<lparr>cached_singular_terms :=
        (cached_singular_terms \<sigma>)(k \<mapsto> length (heap \<sigma>)), heap := heap \<sigma> @ [d], trace := tr\<rparr>) k2
        = Some r"
    show "k1 = k2"
      using a old[of k1 r] old[of k2 r] inj[of k1 r k2]
      by (cases "k1 = k"; cases "k2 = k") auto
  qed
qed

lemma cache_inv_fresh: "cache_inv fresh_state"
  by (simp add: cache_inv_def fresh_state_def)

lemma unique_id_of_eq:
  "unique_id_of X b n tol normals = unique_id_of X b' n' tol' normals'
     \<longleftrightarrow> basis_id b = basis_id b' \<and> tol = tol'
         \<and> sha1_hexdigest X normals = sha1_hexdigest X normals' \<and> n = n'"
  by (auto simp: unique_id_of_def)

lemma call_Inr_cached:
  assumes call: "singular_impedance_rwg X b n tol normals \<sigma> = (Inr r, \<sigma>')"
  shows "is_LinearTriangleBasis b"
    and "cached_singular_terms \<sigma>' (unique_id_of X b n tol normals) = Some r"
    and "\<forall>k. k \<noteq> unique_id_of X b n tol normals
            \<longrightarrow> cached_singular_terms \<sigma>' k = cached_singular_terms \<sigma> k"
    and "\<forall>r0 < length (heap \<sigma>). heap \<sigma>' ! r0 = heap \<sigma> ! r0"
    and "(\<exists>r0. cached_singular_terms \<sigma> (unique_id_of X b n tol normals) = Some r0)
           \<or> r = length (heap \<sigma>)"
proof -
  let ?k = "unique_id_of X b n tol normals"
  show rwg: "is_LinearTriangleBasis b"
    using not_rwg_Inl[of b X n tol normals \<sigma>] call by auto
  have "cached_singular_terms \<sigma>' ?k = Some r
      \<and> (\<forall>k. k \<noteq> ?k \<longrightarrow> cached_singular_terms \<sigma>' k = cached_singular_terms \<sigma> k)
      \<and> (\<forall>r0 < length (heap \<sigma>). heap \<sigma>' ! r0 = heap \<sigma> ! r0)
      \<and> ((\<exists>r0. cached_singular_terms \<sigma> ?k = Some r0) \<or> r = length (heap \<sigma>))"
  proof (cases "cached_singular_terms \<sigma> ?k")
    case (Some r0)
    from rwg_hit[OF rwg Some] call show ?thesis using Some by auto
  next
    case None
    from rwg_miss[OF rwg None call] show ?thesis by (auto simp: nth_append)
  qed
  then show "cached_singular_terms \<sigma>' ?k = Some r"
    and "\<forall>k. k \<noteq> ?k \<longrightarrow> cached_singular_terms \<sigma>' k = cached_singular_terms \<sigma> k"
    and "\<forall>r0 < length (heap \<sigma>). heap \<sigma>' ! r0 = heap \<sigma> ! r0"
    and "(\<exists>r0. cached_singular_terms \<sigma> ?k = Some r0) \<or> r = length (heap \<sigma>)"
    by blast+
qed

lemma call_ignores_other_entry:
  assumes "k \<noteq> unique_id_of X b n tol normals"
  shows "fst (singular_impedance_rwg X b n tol normals
               (\<sigma>\<lparr>cached_singular_terms := (cached_singular_terms \<sigma>)(k := None)\<rparr>))
       = fst (singular_impedance_rwg X b n tol normals \<sigma>)"
  using assms
  by (auto simp: singular_impedance_rwg_def Let_def split: option.splits sum.splits prod.splits)

lemma call_result_shaped:
  assumes inv: "cache_inv \<sigma>"
    and call: "singular_impedance_rwg X b n tol normals \<sigma> = (Inr r, \<sigma>')"
  shows "r < length (heap \<sigma>') \<and> bundle_shaped n (heap \<sigma>' ! r) \<and> cache_inv \<sigma>'"
proof -
  let ?k = "unique_id_of X b n tol normals"
  have rwg: "is_LinearTriangleBasis b"
    using not_rwg_Inl[of b X n tol normals \<sigma>] call by auto
  show ?thesis
  proof (cases "cached_singular_terms \<sigma> ?k")
    case (Some r0)
    from rwg_hit[OF rwg Some] call
    have r: "r = r0" "\<sigma>' = \<sigma>\<lparr>trace := trace \<sigma> @ [CacheLookup ?k]\<rparr>" by simp_all
    from inv Some have "r0 < length (heap \<sigma>) \<and> bundle_shaped (key_num_terms ?k) (heap \<sigma> ! r0)"
      unfolding cache_inv_def by blast
    then show ?thesis using inv by (simp add: r key_num_terms_unique_id cache_inv_trace)
  next
    case None
    from rwg_miss[OF rwg None call] obtain d tr where
      m: "r = length (heap \<sigma>)" "bundle_shaped n d"
         "\<sigma>' = \<sigma>\<lparr>cached_singular_terms := (cached_singular_terms \<sigma>)(?k \<mapsto> length (heap \<sigma>)),
                  heap := heap \<sigma> @ [d], trace := tr @ [CacheStore ?k]\<rparr>"
      by auto
    have "cache_inv \<sigma>'"
      unfolding m(3) using inv m(2) by (intro cache_inv_store) (simp_all add: key_num_terms_unique_id)
    then show ?thesis using m by simp
  qed
qed

section \<open>Lemmas: the compressed form of a store built in row order\<close>






















section \<open>Lemmas: the finalized result of a call\<close>
















section \<open>Lemmas: Mode Set and Pole Refiner\<close>

lemma close_to_cmod: "0 \<le> tol \<Longrightarrow> close_to tol a b \<longleftrightarrow> cmod (a - b) \<le> tol"
proof -
  assume t: "0 \<le> tol"
  have "cmod (a - b) \<le> tol \<longleftrightarrow> (cmod (a - b))\<^sup>2 \<le> tol\<^sup>2"
    using t by (simp add: abs_le_square_iff[symmetric])
  then show ?thesis by (simp add: close_to_def cmod_power2)
qed

lemma close_to_refl: "close_to tol z z"
  by (simp add: close_to_def)

lemma paired_iff: "paired tol M m \<longleftrightarrow> (\<exists>m'\<in>set M. close_to tol (mode_s m') (cnj (mode_s m)))"
  by (simp add: paired_def list_ex_iff)

lemma paired_mono: "set M \<subseteq> set N \<Longrightarrow> paired tol M m \<Longrightarrow> paired tol N m"
  by (auto simp: paired_iff)

lemma all_paired_after:
  assumes "m \<in> set (add_conjugates tol M)"
  shows "paired tol (add_conjugates tol M) m"
proof -
  let ?A = "add_conjugates tol M"
  have sub: "set M \<subseteq> set ?A" by (simp add: add_conjugates_def)
  from assms consider (old) "m \<in> set M"
    | (new) m0 where "m0 \<in> set M" "\<not> paired tol M m0" "m = conjugate_mode m0"
    by (auto simp: add_conjugates_def)
  then show ?thesis
  proof cases
    case old
    show ?thesis
    proof (cases "paired tol M m")
      case True
      with sub show ?thesis by (rule paired_mono)
    next
      case False
      with old have "conjugate_mode m \<in> set ?A" by (simp add: add_conjugates_def)
      moreover have "close_to tol (mode_s (conjugate_mode m)) (cnj (mode_s m))"
        by (simp add: conjugate_mode_def close_to_refl)
      ultimately show ?thesis unfolding paired_iff by blast
    qed
  next
    case new
    from new(1) sub have "m0 \<in> set ?A" by blast
    moreover have "close_to tol (mode_s m0) (cnj (mode_s m))"
      by (simp add: new(3) conjugate_mode_def close_to_refl)
    ultimately show ?thesis unfolding paired_iff by blast
  qed
qed

lemma less_iff_power2_less:
  fixes a b :: real
  assumes "0 \<le> a" and "0 \<le> b"
  shows "a < b \<longleftrightarrow> a\<^sup>2 < b\<^sup>2"
  using assms power_strict_mono[of a b 2] power2_less_imp_less[of a b] by auto

lemma small_change_cmod: "small_change tol s s' \<longleftrightarrow> cmod (s' - s) < tol * cmod s'"
proof (cases "0 < tol")
  case True
  have "cmod (s' - s) < tol * cmod s' \<longleftrightarrow> (cmod (s' - s))\<^sup>2 < (tol * cmod s')\<^sup>2"
    using True by (intro less_iff_power2_less) simp_all
  then show ?thesis using True by (simp add: small_change_def cmod_power2 power_mult_distrib)
next
  case False
  then have "tol * cmod s' \<le> 0" by (simp add: mult_nonpos_nonneg)
  then have "\<not> cmod (s' - s) < tol * cmod s'"
    using norm_ge_zero[of "s' - s"] by linarith
  with False show ?thesis by (simp add: small_change_def)
qed

lemma step_converged_Suc:
  "step_converged update rel_tol (update e) k = step_converged update rel_tol e (Suc k)"
  by (simp add: step_converged_def funpow_swap1)

lemma find_map_option: "find P (map f xs) = map_option f (find (\<lambda>x. P (f x)) xs)"
  by (induction xs) auto

lemma find_upt_Suc:
  "find P [0..<Suc n] = (if P 0 then Some 0 else map_option Suc (find (\<lambda>k. P (Suc k)) [0..<n]))"
proof -
  have "[0..<Suc n] = 0 # map Suc [0..<n]" by (simp add: upt_conv_Cons map_Suc_upt del: upt_Suc)
  then have "find P [0..<Suc n] = find P (0 # map Suc [0..<n])" by simp
  then show ?thesis by (simp add: find_map_option)
qed

lemma find_upt_Some:
  "find P [0..<n] = Some k \<longleftrightarrow> k < n \<and> P k \<and> (\<forall>j<k. \<not> P j)"
proof
  assume "find P [0..<n] = Some k"
  then obtain i where "i < length [0..<n]" "P ([0..<n] ! i)" "k = [0..<n] ! i"
    "\<forall>j<i. \<not> P ([0..<n] ! j)"
    unfolding find_Some_iff by blast
  then show "k < n \<and> P k \<and> (\<forall>j<k. \<not> P j)" by auto
next
  assume a: "k < n \<and> P k \<and> (\<forall>j<k. \<not> P j)"
  then have "k < length [0..<n] \<and> P ([0..<n] ! k) \<and> k = [0..<n] ! k
      \<and> (\<forall>j<k. \<not> P ([0..<n] ! j))" by auto
  then show "find P [0..<n] = Some k" unfolding find_Some_iff by blast
qed

lemma refine_pole_refined:
  "refine_pole update rel_tol max_iter e
     = (case refined update rel_tol max_iter e of
          None \<Rightarrow> Inl ConvergenceFailure | Some m \<Rightarrow> Inr m)"
proof (induction max_iter arbitrary: e)
  case 0
  show ?case by (simp add: refined_def)
next
  case (Suc n)
  show ?case
  proof (cases "step_converged update rel_tol e 0")
    case True
    then show ?thesis by (simp add: refined_def find_upt_Suc step_converged_def del: upt_Suc)
  next
    case False
    have "refined update rel_tol (Suc n) e = refined update rel_tol n (update e)"
      using False
      by (simp add: refined_def find_upt_Suc step_converged_Suc[symmetric] option.map_comp comp_def
                    funpow_swap1 del: upt_Suc)
    moreover have "refine_pole update rel_tol (Suc n) e = refine_pole update rel_tol n (update e)"
      using False by (simp add: step_converged_def)
    ultimately show ?thesis using Suc.IH[of "update e"] by simp
  qed
qed

lemma refined_None:
  "refined update rel_tol max_iter e = None \<longleftrightarrow> \<not> converges_within update rel_tol max_iter e"
  by (auto simp: refined_def converges_within_def find_None_iff list_ex_iff)

lemma refined_Some:
  "refined update rel_tol max_iter e = Some m \<longleftrightarrow>
     (\<exists>k<max_iter. step_converged update rel_tol e k
        \<and> (\<forall>j<k. \<not> step_converged update rel_tol e j) \<and> m = (update ^^ Suc k) e)"
  unfolding refined_def map_option_eq_Some find_upt_Some by auto

lemma refine_poles_map_filter:
  "refine_poles update rel_tol max_iter es
     = Inr (List.map_filter (refined update rel_tol max_iter) es)"
  by (induction es) (auto simp: refine_pole_refined split: option.splits)

lemma map_filter_eq:
  "List.map_filter f xs = map (\<lambda>x. the (f x)) (filter (\<lambda>x. f x \<noteq> None) xs)"
  by (induction xs) (auto split: option.splits)

section \<open>Claims about MultiSparse\<close>

text \<open>
  C10, the claim as worded fails: \<^verbatim>\<open>to_csr\<close> does not return on every store with at
  least one entry. A store that holds one item with two sub-items for one subarray
  raises \<^verbatim>\<open>IndexError\<close>, from \<^verbatim>\<open>data_arrays[sub_count]\<close> with \<open>sub_count = 1\<close>.
\<close>

theorem to_csr_nonempty_raises_counterexample:
  "to_csr plain_numpy C_order (build [(float64, None)] [((0, 0), [1, 2])]) = Inl IndexError
   \<and> len (build [(float64, None)] [((0, 0), [1, 2 :: int])]) = 1"
  by code_simp

text \<open>
  C10, amended. On a store on which nothing was inserted \<^verbatim>\<open>to_csr\<close> raises the
  \<^verbatim>\<open>ValueError\<close> of \<^verbatim>\<open>max\<close> on an empty sequence. Where NumPy stores every integer of
  the \<^verbatim>\<open>int32\<close> range unchanged and the store holds fewer than \<open>2^31\<close> items, \<^verbatim>\<open>to_csr\<close>
  returns exactly when the store has at least one entry and every item in a row that is
  not negative can be stored: its tuple is no longer than \<^verbatim>\<open>subarrays\<close> and NumPy accepts
  each sub-item for its data array and the column for the index array. What it returns
  is then the data arrays followed by the index array and the row-pointer array, and the
  index array is an \<^verbatim>\<open>int32\<close> array with one cell for each stored item.
\<close>

theorem to_csr_succeeds_iff_storable:
  assumes exact: "int32_exact N"
    and small: "int (len (build subs ops)) < 2 ^ 31"
  shows "to_csr N ord (build subs []) = Inl (ValueError ''max() arg is an empty sequence'')
     \<and> ((\<exists>out. to_csr N ord (build subs ops) = Inr out)
          \<longleftrightarrow> ops \<noteq> []
              \<and> (\<forall>(index, item)\<in>set (items (build subs ops)).
                    0 \<le> fst index \<longrightarrow> storable N subs (snd index, item)))
     \<and> (\<forall>out. to_csr N ord (build subs ops) = Inr out \<longrightarrow>
            length out = length subs + 2
            \<and> dtype (out ! length subs) = int32
            \<and> length (cells (out ! length subs)) = length (items (build subs ops)))"
proof -
  let ?M = "build subs ops"
  have 1: "to_csr N ord (build subs []) = Inl (ValueError ''max() arg is an empty sequence'')"
    by (simp add: to_csr_def build_def MultiSparse_init_def)
  have dist: "distinct (map fst (rows ?M))" by (rule distinct_rows_build)
  have ptr: "\<forall>p\<in>set (csr_indptr ?M). \<not> isl (np_store_int N int32 p)"
    using csr_indptr_exact[OF exact small] by simp
  have ent: "(\<forall>e\<in>set (csr_entries ?M). storable N subs e)
      \<longleftrightarrow> (\<forall>(index, item)\<in>set (items ?M). 0 \<le> fst index \<longrightarrow> storable N subs (snd index, item))"
  proof
    assume a: "\<forall>e\<in>set (csr_entries ?M). storable N subs e"
    show "\<forall>(index, item)\<in>set (items ?M). 0 \<le> fst index \<longrightarrow> storable N subs (snd index, item)"
    proof (clarify)
      fix r c item assume "((r, c), item) \<in> set (items ?M)" "0 \<le> fst (r, c)"
      then have "(c, item) \<in> set (csr_entries ?M)"
        using csr_entries_iff_items[OF dist, of c item] by auto
      with a show "storable N subs (snd (r, c), item)" by auto
    qed
  next
    assume a: "\<forall>(index, item)\<in>set (items ?M). 0 \<le> fst index \<longrightarrow> storable N subs (snd index, item)"
    show "\<forall>e\<in>set (csr_entries ?M). storable N subs e"
    proof
      fix e assume "e \<in> set (csr_entries ?M)"
      then have "(fst e, snd e) \<in> set (csr_entries ?M)" by simp
      then obtain r where "0 \<le> r" "((r, fst e), snd e) \<in> set (items ?M)"
        using csr_entries_iff_items[OF dist, of "fst e" "snd e"] by blast
      with a show "storable N subs e" by fastforce
    qed
  qed
  have ok: "csr_ok N ?M \<longleftrightarrow> ops \<noteq> []
      \<and> (\<forall>(index, item)\<in>set (items ?M). 0 \<le> fst index \<longrightarrow> storable N subs (snd index, item))"
    using ptr ent by (simp add: csr_ok_def rows_build_empty subarrays_build)
  have 2: "(\<exists>out. to_csr N ord ?M = Inr out) \<longleftrightarrow> ops \<noteq> []
      \<and> (\<forall>(index, item)\<in>set (items ?M). 0 \<le> fst index \<longrightarrow> storable N subs (snd index, item))"
    unfolding ok[symmetric] by (simp add: to_csr_iff)
  have 3: "length out = length subs + 2 \<and> dtype (out ! length subs) = int32
      \<and> length (cells (out ! length subs)) = length (items ?M)"
    if "to_csr N ord ?M = Inr out" for out
  proof -
    from that have out: "out = csr_result N ord ?M" by (simp add: to_csr_iff)
    show ?thesis
      unfolding out using length_csr_entries_le[of ?M]
      by (simp add: csr_result_def Let_def subarrays_build nth_append index_array_of_def len_items)
  qed
  from 1 2 3 show ?thesis by blast
qed

theorem to_csr_succeeds_iff_storable_witness:
  "to_csr plain_numpy F_order (build [(float64, None)] [])
     = Inl (ValueError ''max() arg is an empty sequence'')
   \<and> (\<exists>out. to_csr plain_numpy F_order (build [(float64, None)] [((0, 1), [5]), ((2, 0), [7])])
          = Inr out
        \<and> length out = 3 \<and> dtype (out ! 1) = int32 \<and> length (cells (out ! 1)) = 2)"
proof -
  let ?subs = "[(float64, None :: nat list option)]"
  let ?ops = "[((0, 1), [5]), ((2 :: int, 0 :: int), [7 :: int])]"
  have small: "int (len (build ?subs ?ops)) < 2 ^ 31"
    by (simp add: len_def build_def setitem_def MultiSparse_init_def)
  have st: "\<forall>(index, item)\<in>set (items (build ?subs ?ops)).
      0 \<le> fst index \<longrightarrow> storable plain_numpy ?subs (snd index, item)"
    by (simp add: items_def build_def setitem_def MultiSparse_init_def storable_def
          elem_shape_def plain_store_small plain_store_int int32_range_def)
  have n: "length (items (build ?subs ?ops)) = 2"
    by (simp add: items_def build_def setitem_def MultiSparse_init_def)
  note t = to_csr_succeeds_iff_storable[OF int32_exact_plain small, of F_order]
  from t have 1: "to_csr plain_numpy F_order (build ?subs [])
      = Inl (ValueError ''max() arg is an empty sequence'')" by blast
  from t st obtain out where out: "to_csr plain_numpy F_order (build ?subs ?ops) = Inr out"
    by blast
  with t have "length out = length ?subs + 2 \<and> dtype (out ! length ?subs) = int32
      \<and> length (cells (out ! length ?subs)) = length (items (build ?subs ?ops))"
    by blast
  with 1 out n show ?thesis by simp
qed

text \<open>
  C4, the claim as worded fails: the last row pointer is not the number of stored items
  for every non-empty store. \<^verbatim>\<open>range(num_rows)\<close> starts at 0, so the entry of a row with
  a negative key is never emitted: the store with the rows \<open>-2\<close> and \<open>1\<close> holds two items,
  and \<^verbatim>\<open>to_csr\<close> returns the pointers \<open>[0, 0, 1]\<close> and leaves the second cell of the
  index array and of the data array as \<^verbatim>\<open>np.empty\<close> made them.
\<close>

theorem to_csr_last_pointer_counterexample:
  "to_csr plain_numpy C_order (build [(float64, None)] [((-2, 0), [7]), ((1, 0), [5])])
     = Inr [\<lparr>dtype = float64, shape = [2], order = C_order, cells = [Sub 5, Uninit]\<rparr>,
            \<lparr>dtype = int32, shape = [2], order = C_order, cells = [Index 0, Uninit]\<rparr>,
            \<lparr>dtype = int32, shape = [3], order = C_order, cells = [Index 0, Index 0, Index 1]\<rparr>]
   \<and> len (build [(float64, None)] [((-2, 0), [7 :: int]), ((1, 0), [5])]) = 2"
  by code_simp

text \<open>
  C4, amended. Take a non-empty store whose row keys are not negative, whose items can
  all be stored (no tuple longer than \<^verbatim>\<open>subarrays\<close>, every sub-item and every column
  accepted by NumPy) and which holds fewer than \<open>2^31\<close> items, with a NumPy that stores
  every integer of the \<^verbatim>\<open>int32\<close> range unchanged. Then \<^verbatim>\<open>to_csr\<close> returns the data arrays,
  one for each entry of \<^verbatim>\<open>subarrays\<close>, followed by exactly one index array and one
  row-pointer array. The row pointers are non-decreasing, start at 0 and end at the
  number of stored items, and the cells of the index array and of every data array
  between the pointers of row \<open>r\<close> and of row \<open>r + 1\<close> hold what NumPy stored of the
  entries of row \<open>r\<close>, in the order of its dict: the entries are grouped by ascending row
  index, under pointers shared by all arrays.
\<close>

theorem to_csr_rows_ascending:
  assumes ne: "ops \<noteq> []"
    and nonneg: "\<forall>(index, item)\<in>set (items (build subs ops)). 0 \<le> fst index"
    and st: "\<forall>(index, item)\<in>set (items (build subs ops)). storable N subs (snd index, item)"
    and exact: "int32_exact N"
    and small: "int (len (build subs ops)) < 2 ^ 31"
  shows "\<exists>out ptr. to_csr N ord (build subs ops) = Inr out
      \<and> length out = length subs + 2
      \<and> cells (out ! (length subs + 1)) = map Index ptr
      \<and> sorted ptr \<and> hd ptr = 0 \<and> last ptr = int (length (items (build subs ops)))
      \<and> (\<forall>r<length ptr - 1.
            py_slice (cells (out ! length subs)) (nat (ptr ! r)) (nat (ptr ! Suc r))
              = map (\<lambda>e. Index (fst (stored_entry N subs e)))
                  (row_entries (rows (build subs ops)) (int r))
          \<and> (\<forall>j<length subs.
                py_slice (cells (out ! j)) (nat (ptr ! r)) (nat (ptr ! Suc r))
                  = map (\<lambda>e. sub_cell (snd (stored_entry N subs e)) j)
                      (row_entries (rows (build subs ops)) (int r))))"
proof -
  let ?M = "build subs ops"
  let ?S = "stored_entry N subs"
  let ?E = "map ?S (csr_entries ?M)"
  let ?out = "csr_result N ord ?M"
  have rows_ne: "rows ?M \<noteq> []" using ne by (simp add: rows_build_empty)
  have dist: "distinct (map fst (rows ?M))" by (rule distinct_rows_build)
  have ptr: "\<forall>p\<in>set (csr_indptr ?M). np_store_int N int32 p = Inr p"
    using exact small by (rule csr_indptr_exact)
  have stE: "\<forall>e\<in>set (csr_entries ?M). storable N (subarrays ?M) e"
  proof
    fix e assume "e \<in> set (csr_entries ?M)"
    then have "(fst e, snd e) \<in> set (csr_entries ?M)" by simp
    then obtain r where "((r, fst e), snd e) \<in> set (items ?M)"
      using csr_entries_iff_items[OF dist, of "fst e" "snd e"] by blast
    with st show "storable N (subarrays ?M) e" by (fastforce simp: subarrays_build)
  qed
  have ok: "csr_ok N ?M" using rows_ne stE ptr by (simp add: csr_ok_def)
  then have out: "to_csr N ord ?M = Inr ?out" by (rule to_csr_ok)
  have lenE: "length (csr_entries ?M) = len ?M" using nonneg by (rule length_csr_entries)
  have "map (\<lambda>p. Index (projr (np_store_int N int32 p))) (csr_indptr ?M)
      = map (\<lambda>p. Index p) (csr_indptr ?M)"
    using ptr by (intro map_cong refl) simp
  then have res: "?out = map (\<lambda>j. data_array_of (len ?M) ord ?E j (subs ! j)) [0..<length subs]
      @ [index_array_of (len ?M) ord ?E,
         \<lparr>dtype = int32, shape = [length (csr_indptr ?M)], order = ord,
          cells = map Index (csr_indptr ?M)\<rparr>]"
    by (simp add: csr_result_def Let_def subarrays_build)
  have 1: "length ?out = length subs + 2" by (simp add: res)
  have 2: "cells (?out ! (length subs + 1)) = map Index (csr_indptr ?M)"
    by (simp add: res nth_append)
  have 3: "sorted (csr_indptr ?M)" "hd (csr_indptr ?M) = 0"
    using pointer_list_csr_indptr[of ?M] by simp_all
  have 5: "last (csr_indptr ?M) = int (length (items ?M))"
    using pointer_list_csr_indptr[of ?M] by (simp add: lenE len_items)
  have ind: "cells (?out ! length subs) = map (\<lambda>e. Index (fst e)) ?E"
    by (simp add: res nth_append index_array_of_def lenE)
  have dat: "cells (?out ! j) = map (\<lambda>e. sub_cell (snd e) j) ?E" if "j < length subs" for j
    using that by (simp add: res nth_append data_array_of_def lenE)
  have 6: "py_slice (cells (?out ! length subs)) (nat (csr_indptr ?M ! r)) (nat (csr_indptr ?M ! Suc r))
              = map (\<lambda>e. Index (fst (?S e))) (row_entries (rows ?M) (int r))
          \<and> (\<forall>j<length subs.
                py_slice (cells (?out ! j)) (nat (csr_indptr ?M ! r)) (nat (csr_indptr ?M ! Suc r))
                  = map (\<lambda>e. sub_cell (snd (?S e)) j) (row_entries (rows ?M) (int r)))"
    if "r < length (csr_indptr ?M) - 1" for r
  proof -
    from that have r: "r < length (row_range (rows ?M))" by (simp add: length_row_range)
    have sl: "py_slice (csr_entries ?M) (nat (csr_indptr ?M ! r)) (nat (csr_indptr ?M ! Suc r))
        = row_entries (rows ?M) (int r)"
      using csr_slice[OF r] row_range_nth[OF r] by simp
    show ?thesis
      by (simp add: ind dat py_slice_map sl comp_def)
  qed
  from out 1 2 3 5 6 show ?thesis by blast
qed

theorem to_csr_rows_ascending_witness:
  "\<exists>out ptr. to_csr plain_numpy F_order
                (build [(float64, None)] [((2, 0), [7]), ((0, 1), [5])]) = Inr out
      \<and> length out = 3
      \<and> cells (out ! 2) = map Index ptr
      \<and> sorted ptr \<and> hd ptr = 0 \<and> last ptr = 2
      \<and> py_slice (cells (out ! 1)) (nat (ptr ! 0)) (nat (ptr ! 1)) = [Index 1]
      \<and> py_slice (cells (out ! 0)) (nat (ptr ! 0)) (nat (ptr ! 1)) = [Sub 5]
      \<and> py_slice (cells (out ! 1)) (nat (ptr ! 2)) (nat (ptr ! 3)) = [Index 0]
      \<and> py_slice (cells (out ! 0)) (nat (ptr ! 2)) (nat (ptr ! 3)) = [Sub 7]"
proof -
  let ?subs = "[(float64, None :: nat list option)]"
  let ?ops = "[((2, 0), [7]), ((0 :: int, 1 :: int), [5 :: int])]"
  let ?M = "build ?subs ?ops"
  have ne: "?ops \<noteq> []" by simp
  have rws: "rows ?M = [(2, [(0, [7])]), (0, [(1, [5])])]"
    by (simp add: build_def setitem_def MultiSparse_init_def)
  have its: "items ?M = [((2, 0), [7]), ((0, 1), [5])]"
    by (simp add: items_def rws)
  have nonneg: "\<forall>(index, item)\<in>set (items ?M). 0 \<le> fst index"
    by (simp add: its)
  have st: "\<forall>(index, item)\<in>set (items ?M). storable plain_numpy ?subs (snd index, item)"
    by (simp add: its storable_def elem_shape_def plain_store_small plain_store_int
          int32_range_def)
  have small: "int (len ?M) < 2 ^ 31" by (simp add: len_def rws)
  have s5: "stored_entry plain_numpy ?subs (1, [5]) = (1, [5])"
    by (simp add: stored_entry_def elem_shape_def plain_store_small plain_store_int
          int32_range_def)
  have s7: "stored_entry plain_numpy ?subs (0, [7]) = (0, [7])"
    by (simp add: stored_entry_def elem_shape_def plain_store_small plain_store_int
          int32_range_def)
  from to_csr_rows_ascending[OF ne nonneg st int32_exact_plain small, of F_order]
  obtain out ptr where o: "to_csr plain_numpy F_order ?M = Inr out"
      "length out = length ?subs + 2"
      "cells (out ! (length ?subs + 1)) = map Index ptr"
      "sorted ptr" "hd ptr = 0" "last ptr = int (length (items ?M))"
    and sl: "\<forall>r<length ptr - 1.
            py_slice (cells (out ! length ?subs)) (nat (ptr ! r)) (nat (ptr ! Suc r))
              = map (\<lambda>e. Index (fst (stored_entry plain_numpy ?subs e)))
                  (row_entries (rows ?M) (int r))
          \<and> (\<forall>j<length ?subs.
                py_slice (cells (out ! j)) (nat (ptr ! r)) (nat (ptr ! Suc r))
                  = map (\<lambda>e. sub_cell (snd (stored_entry plain_numpy ?subs e)) j)
                      (row_entries (rows ?M) (int r)))"
    by blast
  have "to_csr plain_numpy F_order ?M = Inr (csr_result plain_numpy F_order ?M)"
    using o(1) by (simp add: to_csr_iff)
  with o(1) have "out = csr_result plain_numpy F_order ?M" by simp
  then have "length (cells (out ! (length ?subs + 1))) = 4"
    by (simp add: csr_result_def Let_def subarrays_build csr_indptr_def length_offsets
          row_range_def rws py_range_def)
  with o(3) have lp: "length ptr = 4" by simp
  from sl lp have r0: "py_slice (cells (out ! 1)) (nat (ptr ! 0)) (nat (ptr ! 1)) = [Index 1]"
      "py_slice (cells (out ! 0)) (nat (ptr ! 0)) (nat (ptr ! 1)) = [Sub 5]"
    by (simp_all add: row_entries_def rws s5 sub_cell_def)
  from sl[rule_format, of 2] lp
  have r2: "py_slice (cells (out ! 1)) (nat (ptr ! 2)) (nat (ptr ! 3)) = [Index 0]"
      "py_slice (cells (out ! 0)) (nat (ptr ! 2)) (nat (ptr ! 3)) = [Sub 7]"
    by (simp_all add: row_entries_def rws s7 sub_cell_def numeral_3_eq_3)
  from o r0 r2 have "to_csr plain_numpy F_order ?M = Inr out
      \<and> length out = 3
      \<and> cells (out ! 2) = map Index ptr
      \<and> sorted ptr \<and> hd ptr = 0 \<and> last ptr = 2
      \<and> py_slice (cells (out ! 1)) (nat (ptr ! 0)) (nat (ptr ! 1)) = [Index 1]
      \<and> py_slice (cells (out ! 0)) (nat (ptr ! 0)) (nat (ptr ! 1)) = [Sub 5]
      \<and> py_slice (cells (out ! 1)) (nat (ptr ! 2)) (nat (ptr ! 3)) = [Index 0]
      \<and> py_slice (cells (out ! 0)) (nat (ptr ! 2)) (nat (ptr ! 3)) = [Sub 7]"
    by (simp add: its numeral_2_eq_2 numeral_3_eq_3)
  then show ?thesis by blast
qed

text \<open>
  C3, the claim as worded fails: the conversion does not round-trip for every store. The
  store that holds \<open>(7,)\<close> at \<open>(-1, 0)\<close> returns arrays with the row pointers \<open>[0]\<close>, from
  which no entry is read back, while the store holds the entry. And the value
  \<open>2^53 + 1\<close> is read back as \<open>2^53\<close> from its \<^verbatim>\<open>float64\<close> data array.
\<close>

theorem to_csr_round_trip_counterexample:
  "to_csr plain_numpy C_order (build [(float64, None)] [((-1, 0), [7])])
     = Inr [\<lparr>dtype = float64, shape = [1], order = C_order, cells = [Uninit]\<rparr>,
            \<lparr>dtype = int32, shape = [1], order = C_order, cells = [Uninit]\<rparr>,
            \<lparr>dtype = int32, shape = [1], order = C_order, cells = [Index 0]\<rparr>]
   \<and> from_csr [\<lparr>dtype = float64, shape = [1], order = C_order, cells = [Uninit :: int cell]\<rparr>,
               \<lparr>dtype = int32, shape = [1], order = C_order, cells = [Uninit]\<rparr>,
               \<lparr>dtype = int32, shape = [1], order = C_order, cells = [Index 0]\<rparr>] = []
   \<and> getitem (build [(float64, None)] [((-1, 0), [7 :: int])]) (-1, 0) = Inr [7]
   \<and> to_csr plain_numpy C_order (build [(float64, None)] [((0, 0), [2 ^ 53 + 1])])
     = Inr [\<lparr>dtype = float64, shape = [1], order = C_order, cells = [Sub (2 ^ 53)]\<rparr>,
            \<lparr>dtype = int32, shape = [1], order = C_order, cells = [Index 0]\<rparr>,
            \<lparr>dtype = int32, shape = [2], order = C_order, cells = [Index 0, Index 1]\<rparr>]
   \<and> from_csr [\<lparr>dtype = float64, shape = [1], order = C_order, cells = [Sub ((2 :: int) ^ 53)]\<rparr>,
               \<lparr>dtype = int32, shape = [1], order = C_order, cells = [Index 0]\<rparr>,
               \<lparr>dtype = int32, shape = [2], order = C_order, cells = [Index 0, Index 1]\<rparr>]
       = [((0, 0), [2 ^ 53])]
   \<and> getitem (build [(float64, None)] [((0, 0), [(2 :: int) ^ 53 + 1])]) (0, 0)
       = Inr [2 ^ 53 + 1]"
proof -
  have 1: "to_csr plain_numpy C_order (build [(float64, None)] [((-1, 0), [7])])
     = Inr [\<lparr>dtype = float64, shape = [1], order = C_order, cells = [Uninit]\<rparr>,
            \<lparr>dtype = int32, shape = [1], order = C_order, cells = [Uninit]\<rparr>,
            \<lparr>dtype = int32, shape = [1], order = C_order, cells = [Index 0]\<rparr>]"
    by code_simp
  have 2: "from_csr [\<lparr>dtype = float64, shape = [1], order = C_order, cells = [Uninit :: int cell]\<rparr>,
               \<lparr>dtype = int32, shape = [1], order = C_order, cells = [Uninit]\<rparr>,
               \<lparr>dtype = int32, shape = [1], order = C_order, cells = [Index 0]\<rparr>] = []"
    by (simp add: from_csr_def)
  have 3: "getitem (build [(float64, None)] [((-1, 0), [7 :: int])]) (-1, 0) = Inr [7]"
    by code_simp
  have 4: "to_csr plain_numpy C_order (build [(float64, None)] [((0, 0), [2 ^ 53 + 1])])
     = Inr [\<lparr>dtype = float64, shape = [1], order = C_order, cells = [Sub (2 ^ 53)]\<rparr>,
            \<lparr>dtype = int32, shape = [1], order = C_order, cells = [Index 0]\<rparr>,
            \<lparr>dtype = int32, shape = [2], order = C_order, cells = [Index 0, Index 1]\<rparr>]"
    by code_simp
  have 5: "from_csr [\<lparr>dtype = float64, shape = [1], order = C_order, cells = [Sub ((2 :: int) ^ 53)]\<rparr>,
               \<lparr>dtype = int32, shape = [1], order = C_order, cells = [Index 0]\<rparr>,
               \<lparr>dtype = int32, shape = [2], order = C_order, cells = [Index 0, Index 1]\<rparr>]
       = [((0, 0), [2 ^ 53])]"
    by code_simp
  have 6: "getitem (build [(float64, None)] [((0, 0), [(2 :: int) ^ 53 + 1])]) (0, 0)
       = Inr [2 ^ 53 + 1]"
    by code_simp
  from 1 2 3 4 5 6 show ?thesis by (intro conjI)
qed

text \<open>
  C3, amended. Take a store built by a non-empty sequence of insertions whose row keys
  are not negative, whose items have one sub-item for each subarray, whose sub-items and
  columns NumPy stores unchanged, and which holds fewer than \<open>2^31\<close> items, with a NumPy
  that stores every integer of the \<^verbatim>\<open>int32\<close> range unchanged. Then \<^verbatim>\<open>to_csr\<close> returns arrays
  with every cell assigned, and the mapping from \<open>(row, col)\<close> to value tuple read back
  from the data arrays, the shared index array and the shared row-pointer array is the
  mapping the store holds: the same keys, the same tuples, and \<^verbatim>\<open>KeyError\<close> for the same
  missing keys.
\<close>

theorem to_csr_round_trip:
  assumes ne: "ops \<noteq> []"
    and nonneg: "\<forall>(index, item)\<in>set (items (build subs ops)). 0 \<le> fst index"
    and kept: "\<forall>(index, item)\<in>set (items (build subs ops)).
                 stored_unchanged N subs (snd index, item)"
    and exact: "int32_exact N"
    and small: "int (len (build subs ops)) < 2 ^ 31"
  shows "\<exists>out. to_csr N ord (build subs ops) = Inr out
      \<and> (\<forall>a\<in>set out. Uninit \<notin> set (cells a))
      \<and> map_of (from_csr out) = map_of (items (build subs ops))
      \<and> (\<forall>index. getitem (build subs ops) index
            = (case map_of (from_csr out) index of Some item \<Rightarrow> Inr item | None \<Rightarrow> Inl KeyError))"
proof -
  let ?M = "build subs ops"
  let ?S = "stored_entry N (subarrays ?M)"
  let ?E = "csr_entries ?M"
  let ?out = "csr_result N ord ?M"
  have rows_ne: "rows ?M \<noteq> []" using ne by (simp add: rows_build_empty)
  have dist: "distinct (map fst (rows ?M))" by (rule distinct_rows_build)
  have ptr: "\<forall>p\<in>set (csr_indptr ?M). np_store_int N int32 p = Inr p"
    using exact small by (rule csr_indptr_exact)
  have keptE: "\<forall>e\<in>set ?E. stored_unchanged N (subarrays ?M) e"
  proof
    fix e assume "e \<in> set ?E"
    then have "(fst e, snd e) \<in> set ?E" by simp
    then obtain r where "((r, fst e), snd e) \<in> set (items ?M)"
      using csr_entries_iff_items[OF dist, of "fst e" "snd e"] by blast
    with kept show "stored_unchanged N (subarrays ?M) e" by (fastforce simp: subarrays_build)
  qed
  then have same: "?S e = e" if "e \<in> set ?E" for e
    using that stored_unchanged_entry by blast
  have fitE: "\<forall>e\<in>set ?E. length (snd e) = length (subarrays ?M)"
    using keptE by (simp add: stored_unchanged_def)
  have ok: "csr_ok N ?M"
    using rows_ne keptE ptr by (simp add: csr_ok_def stored_unchanged_storable)
  then have out: "to_csr N ord ?M = Inr ?out" by (rule to_csr_ok)
  have lenE: "length ?E = len ?M" using nonneg by (rule length_csr_entries)
  have init: "\<forall>a\<in>set ?out. Uninit \<notin> set (cells a)"
    using fitE
    by (auto simp: csr_result_def Let_def data_array_of_def index_array_of_def lenE sub_cell_def
          length_stored_entry)
  have keys: "set (map fst (rows ?M)) \<subseteq> set (row_range (rows ?M))"
    using inner_nonempty_build nonneg by (rule rows_in_range)
  have rd: "map ?S (row_entries (rows ?M) r) = row_entries (rows ?M) r"
    if "r \<in> set (row_range (rows ?M))" for r
  proof -
    have "set (row_entries (rows ?M) r) \<subseteq> set ?E"
      using that by (auto simp: csr_entries_def emitted_def)
    then have "map ?S (row_entries (rows ?M) r) = map (\<lambda>e. e) (row_entries (rows ?M) r)"
      using same by (intro map_cong refl) blast
    then show ?thesis by simp
  qed
  have closed: "from_csr ?out
      = concat (map (\<lambda>r. map (\<lambda>(col, item). ((r, col), item)) (row_entries (rows ?M) r))
                  (row_range (rows ?M)))"
  proof -
    have "map (\<lambda>r. map (\<lambda>(col, item). ((r, col), item)) (map ?S (row_entries (rows ?M) r)))
            (row_range (rows ?M))
        = map (\<lambda>r. map (\<lambda>(col, item). ((r, col), item)) (row_entries (rows ?M) r))
            (row_range (rows ?M))"
    proof (rule map_cong[OF refl])
      fix r assume r: "r \<in> set (row_range (rows ?M))"
      show "map (\<lambda>(col, item). ((r, col), item)) (map ?S (row_entries (rows ?M) r))
          = map (\<lambda>(col, item). ((r, col), item)) (row_entries (rows ?M) r)"
        by (simp only: rd[OF r])
    qed
    then show ?thesis unfolding from_csr_closed[OF lenE fitE ptr] by (simp only:)
  qed
  have "map_of (from_csr ?out) index = map_of (items ?M) index" for index
  proof -
    obtain r c where index: "index = (r, c)" by (cases index)
    have "map_of (from_csr ?out) (r, c)
        = (if r \<in> set (row_range (rows ?M)) then map_of (row_entries (rows ?M) r) c else None)"
      unfolding closed by (rule map_of_tagged_rows)
    also have "\<dots> = (case map_of (rows ?M) r of None \<Rightarrow> None | Some rd \<Rightarrow> map_of rd c)"
    proof (cases "r \<in> set (row_range (rows ?M))")
      case True
      then show ?thesis by (simp add: row_entries_def split: option.splits)
    next
      case False
      with keys have "r \<notin> fst ` set (rows ?M)" by auto
      then have "map_of (rows ?M) r = None" by (simp add: map_of_eq_None_iff)
      with False show ?thesis by simp
    qed
    also have "\<dots> = map_of (items ?M) (r, c)" using dist by (rule map_of_items[symmetric])
    finally show ?thesis by (simp add: index)
  qed
  then have eq: "map_of (from_csr ?out) = map_of (items ?M)" by (rule ext)
  have "\<forall>index. getitem ?M index
            = (case map_of (from_csr ?out) index of Some item \<Rightarrow> Inr item | None \<Rightarrow> Inl KeyError)"
    unfolding eq using getitem_map_of_items[OF dist] by blast
  with out init eq show ?thesis by blast
qed

theorem to_csr_round_trip_witness:
  "\<exists>out. to_csr plain_numpy F_order
            (build [(float64, None)] [((2, 0), [7]), ((0, 1), [5])]) = Inr out
      \<and> map_of (from_csr out) (2, 0) = Some [7]
      \<and> map_of (from_csr out) (0, 1) = Some [5]
      \<and> map_of (from_csr out) (1, 0) = None
      \<and> getitem (build [(float64, None)] [((2, 0), [7 :: int]), ((0, 1), [5])]) (1, 0)
          = Inl KeyError"
proof -
  let ?subs = "[(float64, None :: nat list option)]"
  let ?ops = "[((2, 0), [7]), ((0 :: int, 1 :: int), [5 :: int])]"
  let ?M = "build ?subs ?ops"
  have ne: "?ops \<noteq> []" by simp
  have rws: "rows ?M = [(2, [(0, [7])]), (0, [(1, [5])])]"
    by (simp add: build_def setitem_def MultiSparse_init_def)
  have its: "items ?M = [((2, 0), [7]), ((0, 1), [5])]"
    by (simp add: items_def rws)
  have nonneg: "\<forall>(index, item)\<in>set (items ?M). 0 \<le> fst index"
    by (simp add: its)
  have kept: "\<forall>(index, item)\<in>set (items ?M). stored_unchanged plain_numpy ?subs (snd index, item)"
    by (simp add: its stored_unchanged_def elem_shape_def plain_store_small plain_store_int
          int32_range_def)
  have small: "int (len ?M) < 2 ^ 31" by (simp add: len_def rws)
  from to_csr_round_trip[OF ne nonneg kept int32_exact_plain small, of F_order]
  obtain out where o: "to_csr plain_numpy F_order ?M = Inr out"
      "map_of (from_csr out) = map_of (items ?M)"
      "\<forall>index. getitem ?M index
          = (case map_of (from_csr out) index of Some item \<Rightarrow> Inr item | None \<Rightarrow> Inl KeyError)"
    by blast
  have a: "map_of (from_csr out) (2, 0) = Some [7]" "map_of (from_csr out) (0, 1) = Some [5]"
      "map_of (from_csr out) (1, 0) = None"
    unfolding o(2) by (simp_all add: its)
  from o(3) a(3) have "getitem ?M (1, 0) = Inl KeyError" by simp
  with o(1) a show ?thesis by blast
qed

section \<open>Claims about singular_impedance_rwg\<close>

text \<open>
  C2. Self-pair exclusion. After the loops of \<^verbatim>\<open>singular_impedance_rwg\<close> the two
  magnetic-field stores \<^verbatim>\<open>T_MFIE\<close> and \<^verbatim>\<open>N_MFIE\<close> hold no entry for a self pair \<open>(p, p)\<close>: they
  hold exactly the touching pairs with \<open>q \<noteq> p\<close>. The electric-field store \<^verbatim>\<open>T_EFIE\<close> holds
  an entry for exactly the touching pairs, and so for \<open>(p, p)\<close> whenever the adjacency lists
  \<open>p\<close> for one of its own nodes. A pair touches when \<open>q\<close> is listed by the adapter for a node
  of the triangle \<open>p\<close>. The iteration over a Python set visits each element once.
\<close>

theorem singular_loop_stored_pairs:
  assumes ok: "set_iter_ok X"
    and run: "singular_loop X b n normals tr0 = Inr (st, tr)"
  shows "(\<forall>p. getitem (T_MFIE st) (p, p) = Inl KeyError \<and> getitem (N_MFIE st) (p, p) = Inl KeyError)
       \<and> (\<forall>p q. touching b p q \<longrightarrow> (\<exists>item. getitem (T_EFIE st) (p, q) = Inr item))
       \<and> (\<forall>p. 0 \<le> p \<and> p < int (length (polygons (mesh b)))
               \<and> (\<exists>node\<in>set (polygons (mesh b) ! nat p).
                     p \<in> set (triangles_sharing_nodes (mesh b) node))
              \<longrightarrow> (\<exists>item. getitem (T_EFIE st) (p, p) = Inr item))
       \<and> (\<forall>p q. has_key (T_EFIE st) (p, q) \<longleftrightarrow> touching b p q)
       \<and> (\<forall>p q. has_key (T_MFIE st) (p, q) \<longleftrightarrow> touching b p q \<and> q \<noteq> p)
       \<and> (\<forall>p q. has_key (N_MFIE st) (p, q) \<longleftrightarrow> touching b p q \<and> q \<noteq> p)"
proof -
  note eff = singular_loop_effect[OF ok run]
  have E: "has_key (T_EFIE st) (p, q) \<longleftrightarrow> touching b p q" for p q
    using eff(1) by blast
  have TM: "has_key (T_MFIE st) (p, q) \<longleftrightarrow> touching b p q \<and> q \<noteq> p" for p q
    using eff(2) by blast
  have NM: "has_key (N_MFIE st) (p, q) \<longleftrightarrow> touching b p q \<and> q \<noteq> p" for p q
    using eff(3) by blast
  have 1: "getitem (T_MFIE st) (p, p) = Inl KeyError \<and> getitem (N_MFIE st) (p, p) = Inl KeyError" for p
    using TM[of p p] NM[of p p] by (simp add: getitem_no_key)
  have 2: "\<exists>item. getitem (T_EFIE st) (p, q) = Inr item" if "touching b p q" for p q
    using E[of p q] that by (auto simp: has_key_def split: sum.splits)
  have 3: "\<exists>item. getitem (T_EFIE st) (p, p) = Inr item"
    if "0 \<le> p \<and> p < int (length (polygons (mesh b)))
               \<and> (\<exists>node\<in>set (polygons (mesh b) ! nat p).
                     p \<in> set (triangles_sharing_nodes (mesh b) node))" for p
  proof -
    from that have "touching b p p" by (simp add: touching_def sharing_triangles_iff)
    then show ?thesis by (rule 2)
  qed
  from 1 2 3 E TM NM show ?thesis by blast
qed

theorem singular_loop_stored_pairs_witness:
  "case singular_loop plain_collaborators bowtie 2 [0, 1] [] of
     Inl e \<Rightarrow> False
   | Inr (st, tr) \<Rightarrow>
       getitem (T_MFIE st) (0, 0) = Inl KeyError \<and> getitem (N_MFIE st) (1, 1) = Inl KeyError
     \<and> has_key (T_EFIE st) (0, 0) \<and> has_key (T_EFIE st) (0, 1)
     \<and> has_key (T_MFIE st) (0, 1) \<and> has_key (N_MFIE st) (1, 0)"
proof -
  have ok: "set_iter_ok plain_collaborators"
    by (simp add: set_iter_ok_def plain_collaborators_def)
  have "\<not> isl (singular_loop plain_collaborators bowtie 2 [0, 1] [])" by code_simp
  then obtain st tr where run: "singular_loop plain_collaborators bowtie 2 [0, 1] [] = Inr (st, tr)"
    by (cases "singular_loop plain_collaborators bowtie 2 [0, 1] []") auto
  have t: "touching bowtie 0 0" "touching bowtie 0 1" "touching bowtie 1 0"
    by (auto simp: touching_def sharing_triangles_iff bowtie_def)
  from singular_loop_stored_pairs[OF ok run] t show ?thesis
    unfolding run by simp
qed

text \<open>
  C7. The claim that no operation of the store replaces a value held at an existing key
  fails: \<^verbatim>\<open>__setitem__\<close> is a dict assignment, and on a key that is present it puts the
  new item in place of the old one, the store keeping its length.
\<close>

theorem setitem_replaces_counterexample:
  "getitem (setitem (0, 0) [1 :: int] (MultiSparse_init [(float64, None)])) (0, 0) = Inr [1]
   \<and> getitem (setitem (0, 0) [2]
        (setitem (0, 0) [1 :: int] (MultiSparse_init [(float64, None)]))) (0, 0) = Inr [2]
   \<and> len (setitem (0, 0) [2]
        (setitem (0, 0) [1 :: int] (MultiSparse_init [(float64, None)]))) = 1"
  by (simp add: getitem_def setitem_def MultiSparse_init_def len_def)

text \<open>
  C7, as amended. In every run of the loops of \<^verbatim>\<open>singular_impedance_rwg\<close> each key a
  store holds was the subject of exactly one \<^verbatim>\<open>__setitem__\<close> on that store, so no value
  is replaced while the stores are built. The store does not enforce this:
  \<^verbatim>\<open>__setitem__\<close> leaves the given item at its key whether or not the key was present,
  and every other key as it was.
\<close>

theorem singular_loop_inserts_once:
  assumes ok: "set_iter_ok X"
    and run: "singular_loop X b n normals tr0 = Inr (st, tr)"
  shows "tr = tr0 @ loop_events X b
       \<and> (\<forall>p q. has_key (T_EFIE st) (p, q)
               \<longrightarrow> count_list (loop_events X b) (SetItem ''T_EFIE'' p q) = 1)
       \<and> (\<forall>p q. has_key (T_MFIE st) (p, q)
               \<longrightarrow> count_list (loop_events X b) (SetItem ''T_MFIE'' p q) = 1)
       \<and> (\<forall>p q. has_key (N_MFIE st) (p, q)
               \<longrightarrow> count_list (loop_events X b) (SetItem ''N_MFIE'' p q) = 1)
       \<and> (\<forall>(M :: 'c MultiSparse) index item index'.
             getitem (setitem index item M) index'
               = (if index' = index then Inr item else getitem M index'))"
proof -
  note eff = singular_loop_effect[OF ok run]
  note d = distinct_loop_events[OF ok, of b]
  have E: "count_list (loop_events X b) (SetItem ''T_EFIE'' p q) = 1"
    if "has_key (T_EFIE st) (p, q)" for p q
  proof -
    from that eff(1) have "touching b p q" by blast
    then have "SetItem ''T_EFIE'' p q \<in> set (loop_events X b)"
      by (simp add: SetItem_in_loop_events(1)[OF ok])
    with d show ?thesis by (rule count_list_distinct_mem)
  qed
  have TM: "count_list (loop_events X b) (SetItem ''T_MFIE'' p q) = 1"
    if "has_key (T_MFIE st) (p, q)" for p q
  proof -
    from that eff(2) have "touching b p q \<and> q \<noteq> p" by blast
    then have "SetItem ''T_MFIE'' p q \<in> set (loop_events X b)"
      by (simp add: SetItem_in_loop_events(2)[OF ok])
    with d show ?thesis by (rule count_list_distinct_mem)
  qed
  have NM: "count_list (loop_events X b) (SetItem ''N_MFIE'' p q) = 1"
    if "has_key (N_MFIE st) (p, q)" for p q
  proof -
    from that eff(3) have "touching b p q \<and> q \<noteq> p" by blast
    then have "SetItem ''N_MFIE'' p q \<in> set (loop_events X b)"
      by (simp add: SetItem_in_loop_events(3)[OF ok])
    with d show ?thesis by (rule count_list_distinct_mem)
  qed
  from eff(4) E TM NM show ?thesis by (simp add: getitem_setitem)
qed

theorem singular_loop_inserts_once_witness:
  "case singular_loop plain_collaborators bowtie 2 [0, 1] [] of
     Inl e \<Rightarrow> False
   | Inr (st, tr) \<Rightarrow>
       tr = [] @ loop_events plain_collaborators bowtie
     \<and> count_list (loop_events plain_collaborators bowtie) (SetItem ''T_EFIE'' 0 0) = 1
     \<and> count_list (loop_events plain_collaborators bowtie) (SetItem ''T_MFIE'' 0 1) = 1
     \<and> count_list (loop_events plain_collaborators bowtie) (SetItem ''N_MFIE'' 1 0) = 1"
proof -
  have ok: "set_iter_ok plain_collaborators"
    by (simp add: set_iter_ok_def plain_collaborators_def)
  have "\<not> isl (singular_loop plain_collaborators bowtie 2 [0, 1] [])" by code_simp
  then obtain st tr where run: "singular_loop plain_collaborators bowtie 2 [0, 1] [] = Inr (st, tr)"
    by (cases "singular_loop plain_collaborators bowtie 2 [0, 1] []") auto
  have t: "touching bowtie 0 0" "touching bowtie 0 1" "touching bowtie 1 0"
    by (auto simp: touching_def sharing_triangles_iff bowtie_def)
  have "has_key (T_EFIE st) (0, 0)" "has_key (T_MFIE st) (0, 1)" "has_key (N_MFIE st) (1, 0)"
    using singular_loop_effect[OF ok run] t by auto
  with singular_loop_inserts_once[OF ok run] show ?thesis
    unfolding run by auto
qed

text \<open>
  C5. \<^verbatim>\<open>singular_impedance_rwg\<close> fails with the \<^verbatim>\<open>ValueError\<close> "Basis functions are not RWG
  based" if and only if the basis is not an instance of \<^verbatim>\<open>LinearTriangleBasis\<close>. It does
  so at once: the state is returned as it was, so the cache was neither consulted nor
  changed and no quadrature was evaluated. With a supported basis every failure is a
  different one (an \<^verbatim>\<open>IndexError\<close>, a failure of the kernel, or the \<^verbatim>\<open>ValueError\<close> of
  \<^verbatim>\<open>max\<close> on an empty store).
\<close>

theorem unsupported_basis_fails_fast:
  "(fst (singular_impedance_rwg X b n tol normals \<sigma>)
       = Inl (ValueError ''Basis functions are not RWG based'')
     \<longleftrightarrow> \<not> is_LinearTriangleBasis b)
   \<and> (\<not> is_LinearTriangleBasis b \<longrightarrow> snd (singular_impedance_rwg X b n tol normals \<sigma>) = \<sigma>)"
proof (cases "is_LinearTriangleBasis b")
  case False
  then show ?thesis by (simp add: singular_impedance_rwg_def)
next
  case True
  let ?k = "unique_id_of X b n tol normals"
  obtain res \<sigma>' where call: "singular_impedance_rwg X b n tol normals \<sigma> = (res, \<sigma>')"
    by (cases "singular_impedance_rwg X b n tol normals \<sigma>")
  have "res \<noteq> Inl (ValueError ''Basis functions are not RWG based'')"
  proof (cases "cached_singular_terms \<sigma> ?k")
    case None
    from rwg_miss[OF True None call] show ?thesis by auto
  next
    case (Some r)
    from rwg_hit[OF True Some] call show ?thesis by simp
  qed
  with True call show ?thesis by simp
qed

theorem unsupported_basis_fails_fast_witness:
  "singular_impedance_rwg plain_collaborators (bowtie\<lparr>is_LinearTriangleBasis := False\<rparr>)
       2 (1 / 1000) [0, 1] fresh_state
     = (Inl (ValueError ''Basis functions are not RWG based''), fresh_state)
   \<and> fst (singular_impedance_rwg plain_collaborators bowtie 2 (1 / 1000) [0, 1] fresh_state)
       \<noteq> Inl (ValueError ''Basis functions are not RWG based'')"
proof -
  have 1: "\<not> is_LinearTriangleBasis (bowtie\<lparr>is_LinearTriangleBasis := False\<rparr>)" by simp
  have 2: "is_LinearTriangleBasis bowtie" by (simp add: bowtie_def)
  from unsupported_basis_fails_fast[of plain_collaborators "bowtie\<lparr>is_LinearTriangleBasis := False\<rparr>"
      2 "1 / 1000" "[0, 1]" fresh_state]
    unsupported_basis_fails_fast[of plain_collaborators bowtie 2 "1 / 1000" "[0, 1]" fresh_state]
    1 2
  show ?thesis by (simp add: prod_eq_iff)
qed



text \<open>
  C1. After a successful call, a second call with the same key material (a supported
  basis with the same \<^verbatim>\<open>id\<close>, the same tolerance, normals with the same fingerprint, the
  same term count) returns the very same object, the reference the first call returned,
  and does nothing but look the key up: no kernel evaluation, no change of the cache or
  of the heap. The entry serves that (tolerance, term count) pair only. For every other
  pair the cache holds what it held before the call and never the reference just
  returned, a request for it gives what it would give were the entry absent, and when
  such a request succeeds it returns a different object under its own key, the first
  entry staying in place.
\<close>

theorem cache_hit_same_object:
  assumes inv: "cache_inv \<sigma>"
    and call: "singular_impedance_rwg X b n tol normals \<sigma> = (Inr r, \<sigma>')"
    and same: "is_LinearTriangleBasis b'" "basis_id b' = basis_id b"
      "sha1_hexdigest X normals' = sha1_hexdigest X normals"
  shows "singular_impedance_rwg X b' n tol normals' \<sigma>'
           = (Inr r, \<sigma>'\<lparr>trace := trace \<sigma>' @ [CacheLookup (unique_id_of X b n tol normals)]\<rparr>)
       \<and> (\<forall>tol' n'. (tol', n') \<noteq> (tol, n) \<longrightarrow>
             cached_singular_terms \<sigma>' (unique_id_of X b n' tol' normals)
               = cached_singular_terms \<sigma> (unique_id_of X b n' tol' normals)
           \<and> cached_singular_terms \<sigma>' (unique_id_of X b n' tol' normals) \<noteq> Some r
           \<and> fst (singular_impedance_rwg X b n' tol' normals \<sigma>')
               = fst (singular_impedance_rwg X b n' tol' normals
                       (\<sigma>'\<lparr>cached_singular_terms :=
                            (cached_singular_terms \<sigma>')(unique_id_of X b n tol normals := None)\<rparr>))
           \<and> (\<forall>r' \<sigma>''. singular_impedance_rwg X b n' tol' normals \<sigma>' = (Inr r', \<sigma>'')
                 \<longrightarrow> r' \<noteq> r
                   \<and> cached_singular_terms \<sigma>'' (unique_id_of X b n tol normals) = Some r
                   \<and> cached_singular_terms \<sigma>'' (unique_id_of X b n' tol' normals) = Some r'
                   \<and> heap \<sigma>'' ! r = heap \<sigma>' ! r))"
proof -
  let ?k = "unique_id_of X b n tol normals"
  note c = call_Inr_cached[OF call]
  have inv': "cache_inv \<sigma>'" and rb: "r < length (heap \<sigma>')"
    using call_result_shaped[OF inv call] by simp_all
  have inj: "k1 = k2"
    if "cached_singular_terms \<sigma>' k1 = Some r0" "cached_singular_terms \<sigma>' k2 = Some r0" for k1 k2 r0
    using inv' that unfolding cache_inv_def by blast
  have key: "unique_id_of X b' n tol normals' = ?k"
    using same by (simp add: unique_id_of_eq)
  have 1: "singular_impedance_rwg X b' n tol normals' \<sigma>'
           = (Inr r, \<sigma>'\<lparr>trace := trace \<sigma>' @ [CacheLookup ?k]\<rparr>)"
    using rwg_hit[OF same(1), of \<sigma>' X n tol normals' r] c(2) by (simp add: key)
  have 2: "cached_singular_terms \<sigma>' (unique_id_of X b n' tol' normals)
               = cached_singular_terms \<sigma> (unique_id_of X b n' tol' normals)
           \<and> cached_singular_terms \<sigma>' (unique_id_of X b n' tol' normals) \<noteq> Some r
           \<and> fst (singular_impedance_rwg X b n' tol' normals \<sigma>')
               = fst (singular_impedance_rwg X b n' tol' normals
                       (\<sigma>'\<lparr>cached_singular_terms := (cached_singular_terms \<sigma>')(?k := None)\<rparr>))
           \<and> (\<forall>r' \<sigma>''. singular_impedance_rwg X b n' tol' normals \<sigma>' = (Inr r', \<sigma>'')
                 \<longrightarrow> r' \<noteq> r
                   \<and> cached_singular_terms \<sigma>'' ?k = Some r
                   \<and> cached_singular_terms \<sigma>'' (unique_id_of X b n' tol' normals) = Some r'
                   \<and> heap \<sigma>'' ! r = heap \<sigma>' ! r)"
    if d: "(tol', n') \<noteq> (tol, n)" for tol' n'
  proof -
    let ?k' = "unique_id_of X b n' tol' normals"
    from d have ne: "?k' \<noteq> ?k" by (auto simp: unique_id_of_eq)
    have a: "cached_singular_terms \<sigma>' ?k' = cached_singular_terms \<sigma> ?k'"
      using c(3) ne by blast
    have b: "cached_singular_terms \<sigma>' ?k' \<noteq> Some r"
      using inj[of ?k' r ?k] c(2) ne by blast
    have e: "fst (singular_impedance_rwg X b n' tol' normals \<sigma>')
               = fst (singular_impedance_rwg X b n' tol' normals
                       (\<sigma>'\<lparr>cached_singular_terms := (cached_singular_terms \<sigma>')(?k := None)\<rparr>))"
      using call_ignores_other_entry[of ?k X b n' tol' normals \<sigma>'] ne by simp
    have f: "r' \<noteq> r \<and> cached_singular_terms \<sigma>'' ?k = Some r
                   \<and> cached_singular_terms \<sigma>'' ?k' = Some r' \<and> heap \<sigma>'' ! r = heap \<sigma>' ! r"
      if call2: "singular_impedance_rwg X b n' tol' normals \<sigma>' = (Inr r', \<sigma>'')" for r' \<sigma>''
    proof -
      note c2 = call_Inr_cached[OF call2]
      have "cached_singular_terms \<sigma>'' ?k = Some r" using c2(3) ne c(2) by metis
      moreover have "heap \<sigma>'' ! r = heap \<sigma>' ! r" using c2(4) rb by blast
      moreover have "r' \<noteq> r"
      proof (cases "cached_singular_terms \<sigma>' ?k'")
        case (Some r0)
        from rwg_hit[OF c(1) Some] call2 have "r' = r0" by simp
        with Some b show ?thesis by simp
      next
        case None
        with c2(5) have "r' = length (heap \<sigma>')" by simp
        with rb show ?thesis by simp
      qed
      ultimately show ?thesis using c2(2) by simp
    qed
    from a b e f show ?thesis by blast
  qed
  from 1 2 show ?thesis by blast
qed

theorem cache_hit_same_object_witness:
  "case singular_impedance_rwg plain_collaborators bowtie 2 (1 / 1000) [0, 1] fresh_state of
     (Inl e, \<sigma>') \<Rightarrow> False
   | (Inr r, \<sigma>') \<Rightarrow>
       singular_impedance_rwg plain_collaborators bowtie 2 (1 / 1000) [0, 1] \<sigma>'
         = (Inr r, \<sigma>'\<lparr>trace := trace \<sigma>' @
              [CacheLookup (unique_id_of plain_collaborators bowtie 2 (1 / 1000) [0, 1])]\<rparr>)
     \<and> cached_singular_terms \<sigma>' (unique_id_of plain_collaborators bowtie 3 (1 / 1000) [0, 1]) \<noteq> Some r
     \<and> cached_singular_terms \<sigma>' (unique_id_of plain_collaborators bowtie 2 (1 / 100) [0, 1]) \<noteq> Some r"
proof -
  have "\<not> isl (fst (singular_impedance_rwg plain_collaborators bowtie 2 (1 / 1000) [0, 1] fresh_state))"
    by code_simp
  then obtain r \<sigma>' where
    call: "singular_impedance_rwg plain_collaborators bowtie 2 (1 / 1000) [0, 1] fresh_state = (Inr r, \<sigma>')"
    by (cases "singular_impedance_rwg plain_collaborators bowtie 2 (1 / 1000) [0, 1] fresh_state";
        cases "fst (singular_impedance_rwg plain_collaborators bowtie 2 (1 / 1000) [0, 1] fresh_state)")
       auto
  have rwg: "is_LinearTriangleBasis bowtie" by (simp add: bowtie_def)
  have d: "(1 / 1000 :: real, 3 :: nat) \<noteq> (1 / 1000, 2)" "(1 / 100 :: real, 2 :: nat) \<noteq> (1 / 1000, 2)"
    by simp_all
  note t = cache_hit_same_object[OF cache_inv_fresh call rwg refl refl]
  from t have 1: "singular_impedance_rwg plain_collaborators bowtie 2 (1 / 1000) [0, 1] \<sigma>'
         = (Inr r, \<sigma>'\<lparr>trace := trace \<sigma>' @
              [CacheLookup (unique_id_of plain_collaborators bowtie 2 (1 / 1000) [0, 1])]\<rparr>)"
    by blast
  from t d(1) have 2: "cached_singular_terms \<sigma>'
      (unique_id_of plain_collaborators bowtie 3 (1 / 1000) [0, 1]) \<noteq> Some r"
    by blast
  from t d(2) have 3: "cached_singular_terms \<sigma>'
      (unique_id_of plain_collaborators bowtie 2 (1 / 100) [0, 1]) \<noteq> Some r"
    by blast
  from 1 2 3 show ?thesis unfolding call by simp
qed

section \<open>Claims about the Mode Set and the Pole Refiner\<close>

text \<open>
  C8. \<^verbatim>\<open>add_conjugates\<close> is idempotent. For every Mode Set \<open>M\<close>, the first call appends
  one new mode \<open>(s*, v_r*, v_l*)\<close> for every mode of \<open>M\<close> that is not paired with its
  conjugate within the tolerance, and a second call appends nothing: it returns the set
  it was given, so the lengths after one and after two calls are equal.
\<close>

theorem add_conjugates_idempotent:
  "add_conjugates tol (add_conjugates tol M) = add_conjugates tol M
   \<and> length (add_conjugates tol (add_conjugates tol M)) = length (add_conjugates tol M)
   \<and> length (add_conjugates tol M) = length M + length (filter (\<lambda>m. \<not> paired tol M m) M)
   \<and> (\<forall>m\<in>set M. \<not> paired tol M m \<longrightarrow> conjugate_mode m \<in> set (add_conjugates tol M))"
proof -
  have "filter (\<lambda>m. \<not> paired tol (add_conjugates tol M) m) (add_conjugates tol M) = []"
    using all_paired_after[of _ tol M] by (simp add: filter_empty_conv)
  then have "add_conjugates tol (add_conjugates tol M) = add_conjugates tol M"
    by (simp add: add_conjugates_def[of tol "add_conjugates tol M"])
  then show ?thesis by (auto simp: add_conjugates_def)
qed

theorem add_conjugates_idempotent_witness:
  "add_conjugates (1 / 1000) (add_conjugates (1 / 1000) [mode_one])
     = add_conjugates (1 / 1000) [mode_one]
   \<and> length (add_conjugates (1 / 1000) (add_conjugates (1 / 1000) [mode_one])) = 2
   \<and> conjugate_mode mode_one \<in> set (add_conjugates (1 / 1000) [mode_one])"
proof -
  have u: "\<not> paired (1 / 1000) [mode_one] mode_one"
    by (simp add: paired_def close_to_def mode_one_def power2_eq_square)
  from add_conjugates_idempotent[of "1 / 1000" "[mode_one]"] u show ?thesis by simp
qed

text \<open>
  C9. For every sequence of estimates, relative tolerance and iteration budget, the Pole
  Refiner returns a list of refined modes and never an error: the failure of an estimate
  is caught and the estimate dropped. The list is no longer than the list of estimates.
  It holds, in order, one mode for each estimate of which one of the first \<open>max_iter\<close>
  steps changes \<open>s\<close> by less than the tolerance, relatively, namely the iterate that the
  first such step leads to; every other estimate fails with \<open>ConvergenceFailure\<close> inside
  the refiner and is absent from the result. The result is the one that the converging
  estimates alone would give, so the missing count, the number of failed estimates, is
  all that shows of them. With a budget of 0 every estimate is dropped.
\<close>

theorem refine_poles_drops_failures:
  "(\<exists>ms. refine_poles update rel_tol max_iter es = Inr ms
      \<and> ms = map (\<lambda>e. the (refined update rel_tol max_iter e))
               (filter (converges_within update rel_tol max_iter) es)
      \<and> length ms \<le> length es
      \<and> length ms + length (filter (\<lambda>e. \<not> converges_within update rel_tol max_iter e) es)
          = length es)
   \<and> (\<forall>e. refine_pole update rel_tol max_iter e = Inl ConvergenceFailure
            \<longleftrightarrow> \<not> converges_within update rel_tol max_iter e)
   \<and> (\<forall>e m. refine_pole update rel_tol max_iter e = Inr m
            \<longleftrightarrow> (\<exists>k<max_iter. step_converged update rel_tol e k
                    \<and> (\<forall>j<k. \<not> step_converged update rel_tol e j)
                    \<and> m = (update ^^ Suc k) e))
   \<and> refine_poles update rel_tol max_iter es
       = refine_poles update rel_tol max_iter
           (filter (converges_within update rel_tol max_iter) es)
   \<and> refine_poles update rel_tol 0 es = Inr []"
proof -
  let ?c = "converges_within update rel_tol max_iter"
  let ?r = "refined update rel_tol max_iter"
  have c: "(\<lambda>e. ?r e \<noteq> None) = ?c" by (rule ext) (simp add: refined_None)
  have eq: "refine_poles update rel_tol max_iter xs = Inr (map (\<lambda>e. the (?r e)) (filter ?c xs))"
    for xs
    unfolding refine_poles_map_filter map_filter_eq c ..
  have 1: "\<exists>ms. refine_poles update rel_tol max_iter es = Inr ms
      \<and> ms = map (\<lambda>e. the (?r e)) (filter ?c es)
      \<and> length ms \<le> length es
      \<and> length ms + length (filter (\<lambda>e. \<not> ?c e) es) = length es"
    using sum_length_filter_compl[of ?c es] by (simp add: eq)
  have 2: "refine_pole update rel_tol max_iter e = Inl ConvergenceFailure \<longleftrightarrow> \<not> ?c e" for e
    by (simp add: refine_pole_refined refined_None[symmetric] split: option.splits)
  have 3: "refine_pole update rel_tol max_iter e = Inr m
      \<longleftrightarrow> (\<exists>k<max_iter. step_converged update rel_tol e k
            \<and> (\<forall>j<k. \<not> step_converged update rel_tol e j) \<and> m = (update ^^ Suc k) e)" for e m
    unfolding refined_Some[symmetric] by (simp add: refine_pole_refined split: option.splits)
  have 4: "refine_poles update rel_tol max_iter es
       = refine_poles update rel_tol max_iter (filter ?c es)"
    by (simp add: eq)
  have 5: "refine_poles update rel_tol 0 es = Inr []"
    by (induction es) simp_all
  from 1 2 3 4 5 show ?thesis by blast
qed

theorem refine_poles_drops_failures_witness:
  "refine_poles halfway (1 / 10) 3 [mode_one\<lparr>mode_s := 0\<rparr>, mode_one\<lparr>mode_s := 2\<rparr>]
     = Inr [mode_one\<lparr>mode_s := Complex 2 0\<rparr>]
   \<and> converges_within halfway (1 / 10) 3 (mode_one\<lparr>mode_s := 0\<rparr>) = False
   \<and> refine_pole halfway (1 / 10) 3 (mode_one\<lparr>mode_s := 0\<rparr>) = Inl ConvergenceFailure
   \<and> refine_pole halfway (1 / 10) 4 (mode_one\<lparr>mode_s := 0\<rparr>)
       = Inr (mode_one\<lparr>mode_s := Complex (15 / 8) 0\<rparr>)"
proof -
  let ?e0 = "mode_one\<lparr>mode_s := 0\<rparr>"
  let ?e2 = "mode_one\<lparr>mode_s := 2\<rparr>"
  have h: "(halfway ^^ Suc k) e = halfway ((halfway ^^ k) e)" for k e by simp
  have n0: "\<not> converges_within halfway (1 / 10) 3 ?e0"
    by (simp add: converges_within_def step_converged_def small_change_def halfway_def
          numeral_3_eq_3 power2_eq_square)
  have c2: "converges_within halfway (1 / 10) 3 ?e2"
    by (simp add: converges_within_def step_converged_def small_change_def halfway_def
          numeral_3_eq_3 power2_eq_square)
  have r2: "refined halfway (1 / 10) 3 ?e2 = Some (mode_one\<lparr>mode_s := Complex 2 0\<rparr>)"
    by (simp add: refined_def step_converged_def small_change_def halfway_def
          numeral_3_eq_3 power2_eq_square)
  have s3: "step_converged halfway (1 / 10) ?e0 3"
    by (simp add: step_converged_def small_change_def halfway_def numeral_3_eq_3 power2_eq_square)
  have s012: "\<forall>j<3. \<not> step_converged halfway (1 / 10) ?e0 j"
    using n0 by (simp add: converges_within_def list_ex_iff)
  have it: "(halfway ^^ Suc 3) ?e0 = mode_one\<lparr>mode_s := Complex (15 / 8) 0\<rparr>"
    by (simp add: halfway_def numeral_3_eq_3)
  note t3 = refine_poles_drops_failures[of halfway "1 / 10" 3 "[?e0, ?e2]"]
  note t4 = refine_poles_drops_failures[of halfway "1 / 10" 4 "[?e0, ?e2]"]
  from t3 have "refine_poles halfway (1 / 10) 3 [?e0, ?e2]
      = Inr (map (\<lambda>e. the (refined halfway (1 / 10) 3 e))
               (filter (converges_within halfway (1 / 10) 3) [?e0, ?e2]))"
    by blast
  then have a: "refine_poles halfway (1 / 10) 3 [?e0, ?e2] = Inr [mode_one\<lparr>mode_s := Complex 2 0\<rparr>]"
    using n0 c2 r2 by simp
  from t3 n0 have b: "refine_pole halfway (1 / 10) 3 ?e0 = Inl ConvergenceFailure" by blast
  from t4 have "refine_pole halfway (1 / 10) 4 ?e0 = Inr (mode_one\<lparr>mode_s := Complex (15 / 8) 0\<rparr>)
      \<longleftrightarrow> (\<exists>k<4. step_converged halfway (1 / 10) ?e0 k
            \<and> (\<forall>j<k. \<not> step_converged halfway (1 / 10) ?e0 j)
            \<and> mode_one\<lparr>mode_s := Complex (15 / 8) 0\<rparr> = (halfway ^^ Suc k) ?e0)"
    by blast
  moreover have "\<exists>k<4. step_converged halfway (1 / 10) ?e0 k
            \<and> (\<forall>j<k. \<not> step_converged halfway (1 / 10) ?e0 j)
            \<and> mode_one\<lparr>mode_s := Complex (15 / 8) 0\<rparr> = (halfway ^^ Suc k) ?e0"
    using s3 s012 it by (intro exI[of _ 3]) simp
  ultimately have d: "refine_pole halfway (1 / 10) 4 ?e0
      = Inr (mode_one\<lparr>mode_s := Complex (15 / 8) 0\<rparr>)" by blast
  from a n0 b d show ?thesis by simp
qed

end
